theory Spec2Isabelle
  imports Complex_Main
begin

section \<open>Linear matrix inequalities: the pencil of \<open>LMI.h\<close>\<close>

text \<open>
  The class \<open>LMI\<close> of \<open>include/convex_bodies/spectrahedra/LMI.h\<close> stores symmetric
  matrices \<open>A\<^sub>0, ..., A\<^sub>d\<close> and evaluates \<open>A\<^sub>0 + \<Sum> x\<^sub>i A\<^sub>i\<close>. The dense specialisation
  keeps, next to the matrices, a packed matrix with the upper triangle of every \<open>A\<^sub>i\<close>
  (\<open>i \<ge> 1\<close>) in one column, and rebuilds the evaluated matrix from the packed product
  through raw pointers into the output storage.

  Conventions of the embedding:
  \<^item> the numeric type \<open>NT\<close> is an exact commutative ring (the reals where a square
    root is taken); rounding of \<open>double\<close> is outside the model;
  \<^item> \<open>unsigned int\<close> and \<open>int\<close> are 32 bits wide. The index products of the source
    (\<open>m * (m + 1) / 2\<close>, \<open>at_col * m\<close>, \<open>at_row * m\<close>) are computed modulo \<open>2^32\<close>, and
    a product stored in an \<open>int\<close> is read as a signed number; they are exact only
    while \<open>m * m < 2^31\<close>. The members \<open>d\<close> and \<open>m\<close> hold the number of coefficient
    matrices and the number of rows modulo \<open>2^32\<close>, and the loops over the matrices
    count in an \<open>int\<close>: they are exact for at most \<open>2^31\<close> matrices. The theorems on
    a constructed pencil assume both bounds;
  \<^item> an Eigen matrix is its shape and its column-major storage, as the pointer
    arithmetic of \<open>evaluateWithoutA0\<close> assumes;
  \<^item> the source raises no exception of its own and returns no error code anywhere.
    What is written \<open>Inl f\<close> below is an execution on which the source leaves the
    defined behaviour of C++ or violates a precondition of the matrix library (an
    index outside a buffer, operands of incompatible sizes): nothing in \<open>LMI.h\<close>
    detects it. The one exception that can arise is the standard library's, when
    \<open>push_back\<close> cannot grow a vector.
\<close>

subsection \<open>Results and loops\<close>

datatype fault =
    Out_Of_Range   \<comment> \<open>an index outside a \<open>std::vector\<close> or outside a matrix's storage\<close>
  | Size_Mismatch  \<comment> \<open>a matrix operation on operands whose sizes do not fit\<close>
  | Uninitialized  \<comment> \<open>storage handed out with a cell that was never written\<close>
  | Allocation_Failure
      \<comment> \<open>\<open>push_back\<close> cannot grow the vector: \<open>std::length_error\<close> or \<open>std::bad_alloc\<close>\<close>

definition and_then :: "fault + 'a \<Rightarrow> ('a \<Rightarrow> fault + 'b) \<Rightarrow> fault + 'b" where
  "and_then r f = (case r of Inl e \<Rightarrow> Inl e | Inr v \<Rightarrow> f v)"

text \<open>A \<open>for\<close> loop over the values of its counter, threading the variables it updates.\<close>

fun for_each :: "'i list \<Rightarrow> ('i \<Rightarrow> 's \<Rightarrow> fault + 's) \<Rightarrow> 's \<Rightarrow> fault + 's" where
  "for_each [] body s = Inr s"
| "for_each (i # rest) body s = and_then (body i s) (for_each rest body)"

subsection \<open>Machine integers\<close>

text \<open>
  The value of an \<open>unsigned int\<close> expression whose exact value is \<open>k\<close>, and the value an
  \<open>int\<close> takes when that \<open>unsigned int\<close> is assigned to it.
\<close>

definition uint32 :: "nat \<Rightarrow> nat" where
  "uint32 k = nat (int k mod 2 ^ 32)"

definition int32 :: "nat \<Rightarrow> int" where
  "int32 k = (let u = int k mod 2 ^ 32 in if u < 2 ^ 31 then u else u - 2 ^ 32)"

subsection \<open>Storage\<close>

text \<open>
  Storage that \<open>resize\<close> has just handed out holds no defined values: a cell is
  \<open>None\<close> until the first write.
\<close>

definition load :: "'a list \<Rightarrow> nat \<Rightarrow> fault + 'a" where
  "load xs i = (if i < length xs then Inr (xs ! i) else Inl Out_Of_Range)"

definition store :: "'a option list \<Rightarrow> nat \<Rightarrow> 'a \<Rightarrow> fault + 'a option list" where
  "store buf i x = (if i < length buf then Inr (buf[i := Some x]) else Inl Out_Of_Range)"

text \<open>A write through a pointer whose offset from the start of the storage is signed.\<close>

definition store_at :: "'a option list \<Rightarrow> int \<Rightarrow> 'a \<Rightarrow> fault + 'a option list" where
  "store_at buf t x = (if 0 \<le> t then store buf (nat t) x else Inl Out_Of_Range)"

definition freeze :: "'a option list \<Rightarrow> fault + 'a list" where
  "freeze buf = (if None \<in> set buf then Inl Uninitialized else Inr (map the buf))"

subsection \<open>Dense matrices and vectors\<close>

text \<open>
  \<open>Eigen::Matrix<NT, Dynamic, Dynamic>\<close>: column-major, the coefficient \<open>(r, c)\<close> is
  cell \<open>r + c * rows\<close> of the storage. A vector \<open>VT\<close> is the list of its coefficients.
\<close>

record 'a matrix =
  rows :: nat
  cols :: nat
  data :: "'a list"

definition coeff :: "'a matrix \<Rightarrow> nat \<Rightarrow> nat \<Rightarrow> fault + 'a" where
  "coeff M r c =
     (if r < rows M \<and> c < cols M then load (data M) (r + c * rows M) else Inl Out_Of_Range)"

definition store_coeff ::
  "nat \<Rightarrow> nat \<Rightarrow> 'a option list \<Rightarrow> nat \<Rightarrow> nat \<Rightarrow> 'a \<Rightarrow> fault + 'a option list" where
  "store_coeff nr nc buf r c x =
     (if r < nr \<and> c < nc then store buf (r + c * nr) x else Inl Out_Of_Range)"

text \<open>\<open>M * x\<close> for a matrix and a vector.\<close>

definition mat_vec :: "('a::comm_ring_1) matrix \<Rightarrow> 'a list \<Rightarrow> fault + 'a list" where
  "mat_vec M x =
     (if cols M \<noteq> length x then Inl Size_Mismatch
      else if length (data M) \<noteq> rows M * cols M then Inl Out_Of_Range
      else Inr (map (\<lambda>i. \<Sum>j\<leftarrow>[0..<cols M]. data M ! (i + j * rows M) * x ! j)
                  [0..<rows M]))"

text \<open>\<open>u.dot(v)\<close>.\<close>

definition dot :: "('a::comm_ring_1) list \<Rightarrow> 'a list \<Rightarrow> fault + 'a" where
  "dot u v =
     (if length u \<noteq> length v then Inl Size_Mismatch
      else Inr (\<Sum>j\<leftarrow>[0..<length u]. u ! j * v ! j))"

text \<open>\<open>ret += B\<close>.\<close>

definition add_assign :: "('a::comm_ring_1) matrix \<Rightarrow> 'a matrix \<Rightarrow> fault + 'a matrix" where
  "add_assign ret B =
     (if rows ret \<noteq> rows B \<or> cols ret \<noteq> cols B then Inl Size_Mismatch
      else if length (data ret) \<noteq> length (data B) then Inl Out_Of_Range
      else Inr (ret\<lparr>data := map2 (+) (data ret) (data B)\<rparr>))"

subsection \<open>The dense pencil\<close>

text \<open>The members of the specialisation; \<open>d\<close> and \<open>m\<close> are \<open>lmi_d\<close> and \<open>lmi_m\<close>.\<close>

record 'a lmi =
  matrices :: "'a matrix list"
  lmi_d :: nat
  lmi_m :: nat
  vectorMatrix :: "'a matrix"

text \<open>
  The copy loop of the constructor. The iterator is the part of the sequence from its
  position to the end: \<open>it != end()\<close> is \<open>it \<noteq> []\<close>, \<open>*it\<close> is the head and \<open>it++\<close>
  drops it.
\<close>

fun copy_loop :: "'a list \<Rightarrow> 'a list \<Rightarrow> 'a list" where
  "copy_loop [] copied = copied"
| "copy_loop (x # it) copied = copy_loop it (copied @ [x])"

text \<open>
  \<open>setVectorMatrix\<close>. The innermost statement
  \<open>vectorMatrix(i++, atMatrix) = (*iter)(at_row, at_col)\<close>, then the two loops over the
  upper triangle of one matrix, then the loop over \<open>iter\<close> and \<open>atMatrix\<close>.
  \<open>int newM = m * (m + 1) / 2\<close> is computed in \<open>unsigned int\<close>; the quotient is below
  \<open>2^31\<close>, so the \<open>int\<close> holds it unchanged.
\<close>

definition pack_entry ::
  "'a matrix \<Rightarrow> nat \<Rightarrow> nat \<Rightarrow> nat \<Rightarrow> nat \<Rightarrow> nat \<Rightarrow> 'a option list \<times> nat
     \<Rightarrow> fault + 'a option list \<times> nat" where
  "pack_entry A newM dd atMatrix at_row at_col = (\<lambda>(vm, i).
     and_then (coeff A at_row at_col) (\<lambda>x.
     and_then (store_coeff newM dd vm i atMatrix x) (\<lambda>vm'.
     Inr (vm', i + 1))))"

definition pack_matrix ::
  "'a matrix \<Rightarrow> nat \<Rightarrow> nat \<Rightarrow> nat \<Rightarrow> nat \<Rightarrow> 'a option list \<Rightarrow> fault + 'a option list" where
  "pack_matrix A newM dd mm atMatrix vm =
     and_then
       (for_each [0..<mm] (\<lambda>at_row.
          for_each [at_row..<mm] (pack_entry A newM dd atMatrix at_row)) (vm, 0))
       (\<lambda>(vm', i). Inr vm')"

fun pack_loop ::
  "'a matrix list \<Rightarrow> nat \<Rightarrow> nat \<Rightarrow> nat \<Rightarrow> nat \<Rightarrow> 'a option list \<Rightarrow> fault + 'a option list" where
  "pack_loop [] newM dd mm atMatrix vm = Inr vm"
| "pack_loop (A # iter) newM dd mm atMatrix vm =
     and_then (pack_matrix A newM dd mm atMatrix vm)
       (pack_loop iter newM dd mm (atMatrix + 1))"

definition setVectorMatrix :: "'a matrix list \<Rightarrow> nat \<Rightarrow> nat \<Rightarrow> fault + 'a matrix" where
  "setVectorMatrix ms dd mm =
     (let newM = uint32 (mm * uint32 (mm + 1)) div 2;
          vm = replicate (newM * dd) None
      in case ms of
           [] \<Rightarrow> Inl Out_Of_Range
         | A0 # iter \<Rightarrow>
             and_then (pack_loop iter newM dd mm 0 vm) (\<lambda>vm'.
             and_then (freeze vm') (\<lambda>cells.
             Inr \<lparr>rows = newM, cols = dd, data = cells\<rparr>)))"

text \<open>
  The constructor \<open>LMI(std::vector<MT>&)\<close>. The members \<open>d\<close> and \<open>m\<close> are
  \<open>unsigned int\<close>: \<open>size() - 1\<close> and \<open>rows()\<close> are converted modulo \<open>2^32\<close>.
  \<open>matrices[0]\<close> of an empty sequence is outside the vector; the value \<open>d\<close> has by
  then (\<open>size() - 1\<close> wrapped around) is never used.
\<close>

definition LMI :: "'a matrix list \<Rightarrow> fault + 'a lmi" where
  "LMI ms =
     (let copied = copy_loop ms []
      in case ms of
           [] \<Rightarrow> Inl Out_Of_Range
         | A0 # rest \<Rightarrow>
             (let dd = uint32 (length ms - 1);
                  mm = uint32 (rows A0)
              in and_then (setVectorMatrix copied dd mm) (\<lambda>vm.
                 Inr \<lparr>matrices = copied, lmi_d = dd, lmi_m = mm, vectorMatrix = vm\<rparr>)))"

definition dimension :: "'a lmi \<Rightarrow> nat" where
  "dimension L = lmi_d L"

definition sizeOfMatrices :: "'a lmi \<Rightarrow> nat" where
  "sizeOfMatrices L = lmi_m L"

subsection \<open>Evaluation\<close>

text \<open>
  \<open>evaluateWithoutA0\<close>, the branch that is compiled. The state of an inner loop is the
  output storage, the offset of \<open>target\<close> from \<open>data\<close> and the offset of \<open>v\<close> from
  \<open>a.data()\<close>. In the lower pass \<open>target\<close> starts at \<open>data + col_offset + at_col\<close> with
  the \<open>int col_offset = at_col * m\<close>, a signed offset; in the upper pass it starts at
  \<open>data + at_row + at_row * m\<close>, where the product is an \<open>unsigned int\<close>.
\<close>

definition copy_lower_entry ::
  "'a list \<Rightarrow> nat \<Rightarrow> 'a option list \<times> int \<times> nat \<Rightarrow> fault + 'a option list \<times> int \<times> nat" where
  "copy_lower_entry a at_row = (\<lambda>(res, target, v).
     and_then (load a v) (\<lambda>x.
     and_then (store_at res target x) (\<lambda>res'.
     Inr (res', target + 1, v + 1))))"

definition copy_lower_column ::
  "'a list \<Rightarrow> nat \<Rightarrow> nat \<Rightarrow> 'a option list \<times> nat \<Rightarrow> fault + 'a option list \<times> nat" where
  "copy_lower_column a mm at_col = (\<lambda>(res, v).
     (let col_offset = int32 (at_col * mm);
          target = col_offset + int at_col
      in and_then (for_each [at_col..<mm] (copy_lower_entry a) (res, target, v))
           (\<lambda>(res', target', v'). Inr (res', v'))))"

definition copy_upper_entry ::
  "'a list \<Rightarrow> nat \<Rightarrow> nat \<Rightarrow> 'a option list \<times> nat \<times> nat
     \<Rightarrow> fault + 'a option list \<times> nat \<times> nat" where
  "copy_upper_entry a mm at_col = (\<lambda>(res, target, v).
     and_then (load a v) (\<lambda>x.
     and_then (store res target x) (\<lambda>res'.
     Inr (res', target + mm, v + 1))))"

definition copy_upper_row ::
  "'a list \<Rightarrow> nat \<Rightarrow> nat \<Rightarrow> 'a option list \<times> nat \<Rightarrow> fault + 'a option list \<times> nat" where
  "copy_upper_row a mm at_row = (\<lambda>(res, v).
     (let target = at_row + uint32 (at_row * mm)
      in and_then (for_each [at_row..<mm] (copy_upper_entry a mm) (res, target, v))
           (\<lambda>(res', target', v'). Inr (res', v'))))"

definition evaluateWithoutA0 :: "('a::comm_ring_1) lmi \<Rightarrow> 'a list \<Rightarrow> fault + 'a matrix" where
  "evaluateWithoutA0 L x =
     and_then (mat_vec (vectorMatrix L) x) (\<lambda>a.
     (let mm = lmi_m L;
          res = replicate (mm * mm) None
      in and_then (for_each [0..<mm] (copy_lower_column a mm) (res, 0)) (\<lambda>(res1, v1).
         and_then (for_each [0..<mm] (copy_upper_row a mm) (res1, 0)) (\<lambda>(res2, v2).
         and_then (freeze res2) (\<lambda>cells.
         Inr \<lparr>rows = mm, cols = mm, data = cells\<rparr>)))))"

definition evaluate :: "('a::comm_ring_1) lmi \<Rightarrow> 'a list \<Rightarrow> fault + 'a matrix" where
  "evaluate L x =
     and_then (evaluateWithoutA0 L x) (\<lambda>ret.
     and_then (load (matrices L) 0) (\<lambda>A0.
     add_assign ret A0))"

subsection \<open>The boundary gradient\<close>

text \<open>
  A coefficient of a vector after \<open>normalize\<close>: a number, or the not-a-number that
  a floating-point division \<open>0 / 0\<close> gives.
\<close>

datatype scalar = Fin real | NaN

text \<open>
  \<open>normalizedDeterminantGradient\<close>: \<open>ret(i) = e.dot(matrices[i+1] * e)\<close> for
  \<open>i < d\<close>, then \<open>ret.normalize()\<close>. The point \<open>p\<close> is a parameter that the body never
  reads. \<open>normalize\<close> belongs to the matrix library; the model takes it as the
  parameter \<open>lib_normalize\<close>.
\<close>

definition gradient_entry ::
  "real matrix list \<Rightarrow> real list \<Rightarrow> nat \<Rightarrow> real option list \<Rightarrow> fault + real option list" where
  "gradient_entry ms e i ret =
     and_then (load ms (i + 1)) (\<lambda>A.
     and_then (mat_vec A e) (\<lambda>Ae.
     and_then (dot e Ae) (\<lambda>q.
     store ret i q)))"

definition normalizedDeterminantGradient ::
  "(real list \<Rightarrow> scalar list) \<Rightarrow> real lmi \<Rightarrow> real list \<Rightarrow> real list
     \<Rightarrow> fault + scalar list" where
  "normalizedDeterminantGradient lib_normalize L p e =
     (let dd = lmi_d L;
          ret = replicate dd None
      in and_then (for_each [0..<dd] (gradient_entry (matrices L) e) ret) (\<lambda>ret'.
         and_then (freeze ret') (\<lambda>g.
         Inr (lib_normalize g))))"

subsection \<open>Membership\<close>

text \<open>
  \<open>EigenvaluesProblems::findSymEigenvalue\<close> is declared in another header; the two
  membership tests take it as the parameter \<open>findSymEigenvalue\<close>.
\<close>

definition isNegativeSemidefinite :: "(real matrix \<Rightarrow> real) \<Rightarrow> real matrix \<Rightarrow> bool" where
  "isNegativeSemidefinite findSymEigenvalue M =
     (let eival = findSymEigenvalue M in eival \<le> 0)"

definition isNegativeSemidefinite_pos ::
  "(real matrix \<Rightarrow> real) \<Rightarrow> real lmi \<Rightarrow> real list \<Rightarrow> fault + bool" where
  "isNegativeSemidefinite_pos findSymEigenvalue L pos =
     and_then (evaluate L pos) (\<lambda>mat.
     Inr (isNegativeSemidefinite findSymEigenvalue mat))"

subsection \<open>The unspecialised template\<close>

text \<open>
  The constructor of the generic \<open>LMI<NT, MT, VT>\<close>; it is a private member of the
  class. Its copy loop is the loop of the dense constructor without \<open>it++\<close>: every
  iteration pushes the matrix under the iterator once more. \<open>push_back\<close> grows the
  vector or throws; \<open>capacity\<close> is the number of elements at which the vector of
  this run cannot grow any further (at most \<open>max_size()\<close>). \<open>nrows\<close> is \<open>rows()\<close> of
  the matrix type \<open>MT\<close>.
\<close>

record 'm generic_lmi =
  g_matrices :: "'m list"
  g_d :: nat
  g_m :: nat

definition push_back :: "nat \<Rightarrow> 'm list \<Rightarrow> 'm \<Rightarrow> fault + 'm list" where
  "push_back capacity v x =
     (if length v < capacity then Inr (v @ [x]) else Inl Allocation_Failure)"

function copy_loop_generic :: "nat \<Rightarrow> 'm list \<Rightarrow> 'm list \<Rightarrow> fault + 'm list" where
  "copy_loop_generic capacity it copied =
     (case it of
        [] \<Rightarrow> Inr copied
      | x # rest \<Rightarrow>
          (case push_back capacity copied x of
             Inl f \<Rightarrow> Inl f
           | Inr copied' \<Rightarrow> copy_loop_generic capacity it copied'))"
  by pat_completeness auto
termination
  by (relation "measure (\<lambda>(capacity, it, copied). capacity - length copied)")
    (auto simp: push_back_def split: if_splits)

declare copy_loop_generic.simps [simp del]

definition LMI_generic :: "nat \<Rightarrow> ('m \<Rightarrow> nat) \<Rightarrow> 'm list \<Rightarrow> fault + 'm generic_lmi" where
  "LMI_generic capacity nrows ms =
     and_then (copy_loop_generic capacity ms []) (\<lambda>copied.
       (case ms of
          [] \<Rightarrow> Inl Out_Of_Range
        | A0 # rest \<Rightarrow>
            Inr \<lparr>g_matrices = copied, g_d = length ms - 1, g_m = nrows A0\<rparr>))"

subsection \<open>Reference notions\<close>

text \<open>A square matrix of size \<open>n\<close> with its storage, and a symmetric one.\<close>

definition square :: "nat \<Rightarrow> 'a matrix \<Rightarrow> bool" where
  "square n M = (rows M = n \<and> cols M = n \<and> length (data M) = n * n)"

definition symmetric :: "'a matrix \<Rightarrow> bool" where
  "symmetric M =
     (\<forall>r \<in> set [0..<rows M]. \<forall>c \<in> set [0..<rows M].
        data M ! (r + c * rows M) = data M ! (c + r * rows M))"

text \<open>
  The weighted sum \<open>x\<^sub>1 A\<^sub>1 + ... + x\<^sub>d A\<^sub>d\<close> computed the plain way, as the branch
  of \<open>evaluateWithoutA0\<close> under \<open>EVALUATE_WITHOUT_A0_NAIVE\<close> writes it: start from the
  zero matrix and add \<open>x(i) * A\<^sub>i\<close> for each coefficient matrix in turn.
\<close>

definition mat_zero :: "nat \<Rightarrow> nat \<Rightarrow> ('a::comm_ring_1) matrix" where
  "mat_zero nr nc = \<lparr>rows = nr, cols = nc, data = replicate (nr * nc) 0\<rparr>"

definition mat_scale :: "('a::comm_ring_1) \<Rightarrow> 'a matrix \<Rightarrow> 'a matrix" where
  "mat_scale k A = A\<lparr>data := map (\<lambda>a. k * a) (data A)\<rparr>"

definition mat_plus :: "('a::comm_ring_1) matrix \<Rightarrow> 'a matrix \<Rightarrow> 'a matrix" where
  "mat_plus A B = A\<lparr>data := map2 (+) (data A) (data B)\<rparr>"

definition evaluateWithoutA0_naive :: "('a::comm_ring_1) lmi \<Rightarrow> 'a list \<Rightarrow> 'a matrix" where
  "evaluateWithoutA0_naive L x =
     foldl (\<lambda>res (xi, A). mat_plus res (mat_scale xi A))
       (mat_zero (lmi_m L) (lmi_m L)) (zip x (tl (matrices L)))"

text \<open>
  Modelled from the spec: an eigenvalue of a real matrix, for the contract of the
  eigenvalue routine, which is outside \<open>LMI.h\<close>.
\<close>

definition eigenvalue :: "real matrix \<Rightarrow> real \<Rightarrow> bool" where
  "eigenvalue M lam =
     (\<exists>v. length v = cols M \<and> (\<exists>i < length v. v ! i \<noteq> 0)
          \<and> mat_vec M v = Inr (map (\<lambda>a. lam * a) v))"

text \<open>
  Modelled from the spec: the contract of the eigenvalue routine, which is outside
  \<open>LMI.h\<close>. Given a real symmetric matrix it returns the maximum eigenvalue.
\<close>

definition returns_maximum_eigenvalue :: "(real matrix \<Rightarrow> real) \<Rightarrow> real matrix \<Rightarrow> bool" where
  "returns_maximum_eigenvalue findSymEigenvalue M =
     (eigenvalue M (findSymEigenvalue M)
      \<and> (\<forall>mu. eigenvalue M mu \<longrightarrow> mu \<le> findSymEigenvalue M))"

text \<open>The squared Euclidean norm of a vector.\<close>

definition squaredNorm :: "real list \<Rightarrow> real" where
  "squaredNorm v = (\<Sum>x\<leftarrow>v. x * x)"

text \<open>
  Modelled from the spec: the division that \<open>normalize\<close> of the matrix library (not part
  of \<open>LMI.h\<close>) applies to a coordinate. The spec has the normalisation of the zero
  vector divide by zero and give not-a-number coordinates without any signal. The
  divisor is the norm of the vector the dividend belongs to, so it is \<open>0\<close> only when
  the dividend is \<open>0\<close>.
\<close>

definition divide_by_norm :: "real \<Rightarrow> real \<Rightarrow> scalar" where
  "divide_by_norm n x = (if n = 0 then NaN else Fin (x / n))"

text \<open>
  Modelled from the spec: \<open>normalize\<close> of the matrix library, which is not part of
  \<open>LMI.h\<close>. The spec has it divide every coordinate by the Euclidean norm of the
  vector.
\<close>

definition normalize_vec :: "real list \<Rightarrow> scalar list" where
  "normalize_vec v = map (divide_by_norm (sqrt (squaredNorm v))) v"

text \<open>The quadratic forms \<open>e\<^sup>T A\<^sub>i e\<close>, \<open>i = 1..d\<close>, before normalisation.\<close>

definition quadratic_form :: "real matrix \<Rightarrow> real list \<Rightarrow> real" where
  "quadratic_form A e =
     (\<Sum>r\<leftarrow>[0..<length e]. e ! r * (\<Sum>c\<leftarrow>[0..<cols A]. data A ! (r + c * rows A) * e ! c))"

definition quadratic_forms :: "real lmi \<Rightarrow> real list \<Rightarrow> real list" where
  "quadratic_forms L e = map (\<lambda>i. quadratic_form (matrices L ! (i + 1)) e) [0..<lmi_d L]"

text \<open>
  The inputs the pencil is meant for: a non-empty sequence of square matrices of one
  size \<open>n\<close>, and such a sequence of symmetric matrices. \<open>at_least n\<close> is the weaker
  shape that the packing loop needs of a coefficient matrix.
\<close>

definition at_least :: "nat \<Rightarrow> 'a matrix \<Rightarrow> bool" where
  "at_least n A = (n \<le> rows A \<and> n \<le> cols A \<and> length (data A) = rows A * cols A)"

definition square_input :: "nat \<Rightarrow> 'a matrix list \<Rightarrow> bool" where
  "square_input n ms = (ms \<noteq> [] \<and> (\<forall>A \<in> set ms. square n A))"

definition pencil_input :: "nat \<Rightarrow> 'a matrix list \<Rightarrow> bool" where
  "pencil_input n ms = (ms \<noteq> [] \<and> (\<forall>A \<in> set ms. square n A \<and> symmetric A))"

text \<open>
  The packed column of a matrix: its upper triangle, row after row, each row from the
  diagonal to the last column. Row \<open>i\<close> starts at \<open>tri_offset m i\<close>.
\<close>

definition upper_triangle :: "nat \<Rightarrow> 'a matrix \<Rightarrow> 'a list" where
  "upper_triangle m A =
     concat (map (\<lambda>r. map (\<lambda>c. data A ! (r + c * rows A)) [r..<m]) [0..<m])"

fun tri_offset :: "nat \<Rightarrow> nat \<Rightarrow> nat" where
  "tri_offset m 0 = 0"
| "tri_offset m (Suc i) = tri_offset m i + (m - i)"

text \<open>The entry of the packed product that the two copy passes leave in cell \<open>(r, c)\<close>.\<close>

definition unpacked_cell :: "nat \<Rightarrow> 'a list \<Rightarrow> nat \<Rightarrow> nat \<Rightarrow> 'a" where
  "unpacked_cell m a r c =
     (if r \<le> c then a ! (tri_offset m r + (c - r)) else a ! (tri_offset m c + (r - c)))"

text \<open>The pencil of the spec's concrete scenario: \<open>d = 2\<close>, \<open>m = 2\<close>.\<close>

definition scenario :: "real matrix list" where
  "scenario =
     [\<lparr>rows = 2, cols = 2, data = [0, 0, 0, 0]\<rparr>,
      \<lparr>rows = 2, cols = 2, data = [1, 0, 0, - 1]\<rparr>,
      \<lparr>rows = 2, cols = 2, data = [0, 1, 1, 0]\<rparr>]"

text \<open>
  A pencil with a boundary point at which the gradient vanishes: at \<open>p = (0)\<close> the
  pencil is \<open>A\<^sub>0\<close>, whose kernel contains \<open>e = (1, 1)\<close>, and \<open>e\<^sup>T A\<^sub>1 e = 0\<close>.
\<close>

definition degenerate :: "real matrix list" where
  "degenerate =
     [\<lparr>rows = 2, cols = 2, data = [1, - 1, - 1, 1]\<rparr>,
      \<lparr>rows = 2, cols = 2, data = [1, 0, 0, - 1]\<rparr>]"

section \<open>Loops and storage\<close>

lemma and_then_Inr [simp]: "and_then (Inr v) f = f v"
  by (simp add: and_then_def)

lemma and_then_Inl [simp]: "and_then (Inl e) f = Inl e"
  by (simp add: and_then_def)

lemma for_each_append:
  "for_each (xs @ ys) body s = and_then (for_each xs body s) (for_each ys body)"
proof (induction xs arbitrary: s)
  case Nil
  show ?case by simp
next
  case (Cons x xs)
  show ?case
  proof (cases "body x s")
    case (Inl e)
    then show ?thesis by simp
  next
    case (Inr s')
    then show ?thesis using Cons.IH by simp
  qed
qed

lemma for_each_upt_Suc:
  "lo \<le> n \<Longrightarrow> for_each [lo..<Suc n] body s = and_then (for_each [lo..<n] body s) (body n)"
proof -
  assume "lo \<le> n"
  then have "[lo..<Suc n] = [lo..<n] @ [n]" by simp
  then show ?thesis
    by (simp only: for_each_append) (simp add: and_then_def split: sum.splits)
qed

text \<open>While \<open>m * m < 2^31\<close> no index product of the source leaves the range of its type.\<close>

lemma uint32_exact:
  assumes "k < 2 ^ 32"
  shows "uint32 k = k"
proof -
  have "int k < 2 ^ 32" using assms by (simp add: of_nat_less_numeral_power_cancel_iff)
  then have "int k mod 2 ^ 32 = int k" by simp
  then show ?thesis by (simp add: uint32_def)
qed

lemma int32_exact:
  assumes "k < 2 ^ 31"
  shows "int32 k = int k"
proof -
  have small: "int k < 2 ^ 31" using assms by (simp add: of_nat_less_numeral_power_cancel_iff)
  then have "int k mod 2 ^ 32 = int k" by simp
  then show ?thesis using small by (simp add: int32_def)
qed

lemma size_below_2_16:
  assumes "m * m < (2 :: nat) ^ 31"
  shows "m < 2 ^ 16"
proof (rule ccontr)
  assume "\<not> m < 2 ^ 16"
  then have large: "(2 :: nat) ^ 16 \<le> m" by simp
  from large large have "(2 :: nat) ^ 16 * 2 ^ 16 \<le> m * m" by (rule mult_le_mono)
  then show False using assms by simp
qed

lemma product_exact:
  assumes "k \<le> m" "m * m < (2 :: nat) ^ 31"
  shows "k * m < 2 ^ 31"
proof -
  have "k * m \<le> m * m" using assms(1) by (rule mult_le_mono1)
  then show ?thesis using assms(2) by (rule le_less_trans)
qed

lemma newM_exact:
  assumes "m * m < (2 :: nat) ^ 31"
  shows "uint32 (m * uint32 (m + 1)) div 2 = m * (m + 1) div 2"
proof -
  have m: "m < 2 ^ 16" using assms by (rule size_below_2_16)
  then have "uint32 (m + 1) = m + 1" by (intro uint32_exact) simp
  moreover have "m * (m + 1) < 2 ^ 32" using assms m by simp
  ultimately show ?thesis by (simp add: uint32_exact)
qed

text \<open>Cells of a column-major grid: the index is in range and determines row and column.\<close>

lemma cell_bound: "r < m \<Longrightarrow> c < n \<Longrightarrow> r + c * m < m * (n::nat)"
proof -
  assume r: "r < m" and c: "c < n"
  have "r + c * m < m + c * m" using r by simp
  also have "\<dots> = Suc c * m" by simp
  also have "\<dots> \<le> n * m" using c by (intro mult_le_mono1) simp
  finally show ?thesis by (simp add: mult.commute)
qed

lemma cell_inj:
  "r < m \<Longrightarrow> r' < m \<Longrightarrow> (r + c * m = r' + c' * (m::nat)) = (r = r' \<and> c = c')"
proof
  assume r: "r < m" and r': "r' < m" and eq: "r + c * m = r' + c' * m"
  have "(r + c * m) div m = c" "(r + c * m) mod m = r" using r by simp_all
  moreover have "(r' + c' * m) div m = c'" "(r' + c' * m) mod m = r'" using r' by simp_all
  ultimately show "r = r' \<and> c = c'" using eq by metis
qed simp

lemma grid_eqI:
  assumes "length xs = m * n" "length ys = m * n"
    "\<And>r c. r < m \<Longrightarrow> c < n \<Longrightarrow> xs ! (r + c * m) = ys ! (r + c * m)"
  shows "xs = ys"
proof (rule nth_equalityI)
  show "length xs = length ys" using assms(1,2) by simp
next
  fix p assume "p < length xs"
  then have p: "p < m * n" using assms(1) by simp
  then have "0 < m" by (cases m) auto
  then have "p mod m < m" by simp
  moreover have "p div m < n" using p by (simp add: less_mult_imp_div_less mult.commute)
  ultimately have "xs ! (p mod m + p div m * m) = ys ! (p mod m + p div m * m)"
    by (rule assms(3))
  then show "xs ! p = ys ! p" by simp
qed

lemma sum_list_upt_cong:
  assumes "\<And>j. j < n \<Longrightarrow> f j = g j"
  shows "(\<Sum>j\<leftarrow>[0..<n]. f j) = (\<Sum>j\<leftarrow>[0..<n]. (g j :: 'a::comm_ring_1))"
proof -
  have "map f [0..<n] = map g [0..<n]" using assms by simp
  then show ?thesis by (rule arg_cong)
qed

lemma all_cells_some:
  assumes "length buf = m * n" "\<forall>r<m. \<forall>c<n. \<exists>y. buf ! (r + c * m) = Some y"
  shows "None \<notin> set buf"
proof
  assume "None \<in> set buf"
  then obtain p where p: "p < length buf" "buf ! p = None" by (auto simp: in_set_conv_nth)
  then have "0 < m" using assms(1) by (cases m) auto
  then have r: "p mod m < m" by simp
  have c: "p div m < n" using p(1) assms(1) \<open>0 < m\<close>
    by (simp add: less_mult_imp_div_less mult.commute)
  have "p mod m + p div m * m = p" by simp
  with assms(2) r c p(2) show False by (metis option.distinct(1))
qed

lemma freeze_cells:
  assumes "length buf = m * n" "\<forall>r<m. \<forall>c<n. buf ! (r + c * m) = Some (f r c)"
  shows "\<exists>cells. freeze buf = Inr cells \<and> length cells = m * n
           \<and> (\<forall>r<m. \<forall>c<n. cells ! (r + c * m) = f r c)"
proof -
  have "None \<notin> set buf" using all_cells_some [OF assms(1)] assms(2) by blast
  then have fr: "freeze buf = Inr (map the buf)" by (simp add: freeze_def)
  have "\<forall>r<m. \<forall>c<n. map the buf ! (r + c * m) = f r c"
    using assms cell_bound by (simp add: cell_bound)
  then show ?thesis using fr assms(1) by simp
qed

subsection \<open>The triangular layout\<close>

lemma tri_offset_mono: "i \<le> j \<Longrightarrow> tri_offset m i \<le> tri_offset m j"
proof (induction j)
  case 0
  then show ?case by simp
next
  case (Suc j)
  then show ?case by (cases "i = Suc j") auto
qed

lemma tri_offset_double: "k \<le> m \<Longrightarrow> 2 * tri_offset m k + k * k = k * (2 * m + 1)"
proof (induction k)
  case 0
  show ?case by simp
next
  case (Suc k)
  then have "2 * tri_offset m k + k * k = k * (2 * m + 1)" and "k < m" by simp_all
  then show ?case by (simp add: algebra_simps)
qed

lemma tri_offset_full: "tri_offset m m = m * (m + 1) div 2"
proof -
  have "2 * tri_offset m m + m * m = m * (2 * m + 1)" by (rule tri_offset_double) simp
  then have "2 * tri_offset m m = m * (m + 1)" by (simp add: algebra_simps)
  then show ?thesis by (metis nonzero_mult_div_cancel_left zero_neq_numeral)
qed

lemma unpacked_index_bound:
  assumes "r \<le> c" "c < m"
  shows "tri_offset m r + (c - r) < tri_offset m m"
proof -
  have "tri_offset m r + (c - r) < tri_offset m (Suc r)" using assms by simp
  also have "\<dots> \<le> tri_offset m m" using assms by (intro tri_offset_mono) simp
  finally show ?thesis .
qed

lemma length_concat_rows:
  assumes "\<forall>i<j. length (f i) = m - i"
  shows "length (concat (map f [0..<j])) = tri_offset m j"
  using assms by (induction j) simp_all

lemma concat_rows_nth:
  assumes "\<forall>i<m. length (f i) = m - i" "r < m" "q < m - r"
  shows "concat (map f [0..<m]) ! (tri_offset m r + q) = f r ! q"
proof -
  have split: "[0..<m] = [0..<r] @ r # [Suc r..<m]"
    using assms(2) by (metis le0 upt_add_eq_append upt_conv_Cons le_add_diff_inverse less_imp_le_nat)
  have len: "length (concat (map f [0..<r])) = tri_offset m r"
    using assms(1,2) by (intro length_concat_rows) simp
  have "concat (map f [0..<m]) = concat (map f [0..<r]) @ f r @ concat (map f [Suc r..<m])"
    by (subst split) simp
  then show ?thesis using len assms by (simp add: nth_append)
qed

lemma upper_triangle_nth:
  assumes "r \<le> c" "c < m"
  shows "upper_triangle m A ! (tri_offset m r + (c - r)) = data A ! (r + c * rows A)"
proof -
  let ?f = "\<lambda>r. map (\<lambda>c. data A ! (r + c * rows A)) [r..<m]"
  have "concat (map ?f [0..<m]) ! (tri_offset m r + (c - r)) = ?f r ! (c - r)"
    using assms by (intro concat_rows_nth) auto
  then show ?thesis using assms by (simp add: upper_triangle_def)
qed

lemma length_upper_triangle: "length (upper_triangle m A) = tri_offset m m"
  unfolding upper_triangle_def by (rule length_concat_rows) simp

lemma concat_nth_uniform:
  assumes "\<forall>xs \<in> set xss. length xs = len" "k < length xss" "i < len"
  shows "concat xss ! (i + k * len) = xss ! k ! i"
  using assms
proof (induction xss arbitrary: k)
  case Nil
  then show ?case by simp
next
  case (Cons xs xss)
  show ?case
  proof (cases k)
    case 0
    then show ?thesis using Cons.prems by (simp add: nth_append)
  next
    case (Suc k')
    then have "concat xss ! (i + k' * len) = xss ! k' ! i"
      using Cons.IH [of k'] Cons.prems by simp
    then show ?thesis using Suc Cons.prems by (simp add: nth_append add.commute add.left_commute)
  qed
qed

lemma length_concat_uniform:
  "\<forall>xs \<in> set xss. length xs = len \<Longrightarrow> length (concat xss) = len * length xss"
  by (induction xss) simp_all

section \<open>Construction\<close>

text \<open>
  The packing loops, from the innermost outwards: one row of the upper triangle, all
  rows of one matrix, all coefficient matrices.
\<close>

lemma copy_loop_append: "copy_loop it copied = copied @ it"
  by (induction it arbitrary: copied) simp_all

lemma pack_inner:
  assumes "r \<le> hi" "hi \<le> m" "m \<le> rows A" "m \<le> cols A"
    "length (data A) = rows A * cols A" "k < dd" "length vm = newM * dd"
    "i + (hi - r) \<le> newM"
  shows "\<exists>vm'. for_each [r..<hi] (pack_entry A newM dd k r) (vm, i) = Inr (vm', i + (hi - r))
      \<and> length vm' = newM * dd
      \<and> (\<forall>n<newM. \<forall>k'<dd. vm' ! (n + k' * newM) =
            (if k' = k \<and> i \<le> n \<and> n < i + (hi - r)
             then Some (data A ! (r + (r + (n - i)) * rows A))
             else vm ! (n + k' * newM)))"
  using assms(1,2,8)
proof (induction hi rule: dec_induct)
  case base
  then show ?case using assms(7) by auto
next
  case (step c)
  have pre: "c \<le> m" "i + (c - r) \<le> newM"
    using step.prems step.hyps by simp_all
  from step.IH [OF pre] obtain vm1 where
    run: "for_each [r..<c] (pack_entry A newM dd k r) (vm, i) = Inr (vm1, i + (c - r))"
    and len: "length vm1 = newM * dd"
    and cells: "\<forall>n<newM. \<forall>k'<dd. vm1 ! (n + k' * newM) =
            (if k' = k \<and> i \<le> n \<and> n < i + (c - r)
             then Some (data A ! (r + (r + (n - i)) * rows A))
             else vm ! (n + k' * newM))"
    by blast
  from step.prems step.hyps have c: "c < m" and rm: "r < m" and i: "i + (c - r) < newM"
    by simp_all
  have rA: "r < rows A" and cA: "c < cols A" using c rm assms(3,4) by simp_all
  have rd: "r + c * rows A < length (data A)" using cell_bound [OF rA cA] assms(5) by simp
  have st: "i + (c - r) + k * newM < length vm1" using cell_bound [OF i assms(6)] len by simp
  let ?vm = "vm1[i + (c - r) + k * newM := Some (data A ! (r + c * rows A))]"
  have "for_each [r..<Suc c] (pack_entry A newM dd k r) (vm, i)
          = and_then (for_each [r..<c] (pack_entry A newM dd k r) (vm, i))
              (pack_entry A newM dd k r c)"
    using step.hyps(1) by (rule for_each_upt_Suc)
  also have "\<dots> = pack_entry A newM dd k r c (vm1, i + (c - r))"
    by (simp only: run and_then_Inr)
  also have "\<dots> = Inr (?vm, i + (Suc c - r))"
    using rA cA rd st i assms(6) step.hyps(1)
    by (simp add: pack_entry_def coeff_def load_def store_coeff_def store_def Suc_diff_le)
  finally have "for_each [r..<Suc c] (pack_entry A newM dd k r) (vm, i)
                  = Inr (?vm, i + (Suc c - r))" .
  moreover have "length ?vm = newM * dd" using len by simp
  moreover have "\<forall>n<newM. \<forall>k'<dd. ?vm ! (n + k' * newM) =
            (if k' = k \<and> i \<le> n \<and> n < i + (Suc c - r)
             then Some (data A ! (r + (r + (n - i)) * rows A))
             else vm ! (n + k' * newM))"
  proof (intro allI impI)
    fix n k' assume n: "n < newM" and k': "k' < dd"
    have in_range: "n + k' * newM < length vm1" using cell_bound [OF n k'] len by simp
    have eq: "(i + (c - r) + k * newM = n + k' * newM) = (i + (c - r) = n \<and> k = k')"
      using cell_inj [OF i n, of k k'] by simp
    show "?vm ! (n + k' * newM) =
            (if k' = k \<and> i \<le> n \<and> n < i + (Suc c - r)
             then Some (data A ! (r + (r + (n - i)) * rows A))
             else vm ! (n + k' * newM))"
    proof (cases "i + (c - r) = n \<and> k = k'")
      case True
      then have "r + (n - i) = c" using step.hyps(1) by auto
      then show ?thesis using True st step.hyps(1) by (auto simp: eq)
    next
      case False
      then have "?vm ! (n + k' * newM) = vm1 ! (n + k' * newM)"
        using eq by (simp add: nth_list_update)
      then show ?thesis using cells n k' False step.hyps(1) by (auto simp: Suc_diff_le)
    qed
  qed
  ultimately show ?case by blast
qed

lemma pack_rows:
  assumes "j \<le> m" "m \<le> rows A" "m \<le> cols A"
    "length (data A) = rows A * cols A" "k < dd" "length vm = newM * dd"
    "tri_offset m m \<le> newM"
  shows "\<exists>vm'. for_each [0..<j] (\<lambda>at_row. for_each [at_row..<m] (pack_entry A newM dd k at_row))
                  (vm, 0) = Inr (vm', tri_offset m j)
      \<and> length vm' = newM * dd
      \<and> (\<forall>n<newM. \<forall>k'<dd. vm' ! (n + k' * newM) =
            (if k' = k \<and> n < tri_offset m j then Some (upper_triangle m A ! n)
             else vm ! (n + k' * newM)))"
  using assms(1)
proof (induction j)
  case 0
  then show ?case using assms(6) by simp
next
  case (Suc j)
  then have j: "j < m" by simp
  let ?row = "\<lambda>at_row. for_each [at_row..<m] (pack_entry A newM dd k at_row)"
  from Suc.IH j obtain vm1 where
    run: "for_each [0..<j] ?row (vm, 0) = Inr (vm1, tri_offset m j)"
    and len: "length vm1 = newM * dd"
    and cells: "\<forall>n<newM. \<forall>k'<dd. vm1 ! (n + k' * newM) =
            (if k' = k \<and> n < tri_offset m j then Some (upper_triangle m A ! n)
             else vm ! (n + k' * newM))"
    by auto
  have "tri_offset m (Suc j) \<le> tri_offset m m"
    using j by (intro tri_offset_mono) simp
  then have room: "tri_offset m j + (m - j) \<le> newM" using assms(7) by simp
  from pack_inner [where r = j and hi = m and m = m and A = A and k = k and dd = dd
      and vm = vm1 and newM = newM and i = "tri_offset m j",
      OF _ _ assms(2,3,4,5) len room] j
  obtain vm2 where
    inner: "for_each [j..<m] (pack_entry A newM dd k j) (vm1, tri_offset m j)
              = Inr (vm2, tri_offset m j + (m - j))"
    and len2: "length vm2 = newM * dd"
    and cells2: "\<forall>n<newM. \<forall>k'<dd. vm2 ! (n + k' * newM) =
            (if k' = k \<and> tri_offset m j \<le> n \<and> n < tri_offset m j + (m - j)
             then Some (data A ! (j + (j + (n - tri_offset m j)) * rows A))
             else vm1 ! (n + k' * newM))"
    by auto
  have "for_each [0..<Suc j] ?row (vm, 0) = and_then (for_each [0..<j] ?row (vm, 0)) (?row j)"
    by (rule for_each_upt_Suc) simp
  also have "\<dots> = ?row j (vm1, tri_offset m j)"
    by (simp only: run and_then_Inr)
  also have "\<dots> = Inr (vm2, tri_offset m (Suc j))"
    by (simp add: inner)
  finally have "for_each [0..<Suc j] ?row (vm, 0) = Inr (vm2, tri_offset m (Suc j))" .
  moreover have "\<forall>n<newM. \<forall>k'<dd. vm2 ! (n + k' * newM) =
            (if k' = k \<and> n < tri_offset m (Suc j) then Some (upper_triangle m A ! n)
             else vm ! (n + k' * newM))"
  proof (intro allI impI)
    fix n k' assume n: "n < newM" and k': "k' < dd"
    have v2: "vm2 ! (n + k' * newM) =
            (if k' = k \<and> tri_offset m j \<le> n \<and> n < tri_offset m j + (m - j)
             then Some (data A ! (j + (j + (n - tri_offset m j)) * rows A))
             else vm1 ! (n + k' * newM))"
      using cells2 n k' by blast
    have v1: "vm1 ! (n + k' * newM) =
            (if k' = k \<and> n < tri_offset m j then Some (upper_triangle m A ! n)
             else vm ! (n + k' * newM))"
      using cells n k' by blast
    show "vm2 ! (n + k' * newM) =
            (if k' = k \<and> n < tri_offset m (Suc j) then Some (upper_triangle m A ! n)
             else vm ! (n + k' * newM))"
    proof (cases "k' = k \<and> tri_offset m j \<le> n \<and> n < tri_offset m j + (m - j)")
      case True
      let ?c = "j + (n - tri_offset m j)"
      have c: "j \<le> ?c" "?c < m" using True j by auto
      have "upper_triangle m A ! (tri_offset m j + (?c - j)) = data A ! (j + ?c * rows A)"
        using c by (rule upper_triangle_nth)
      moreover have "tri_offset m j + (?c - j) = n" using True by simp
      ultimately show ?thesis using v2 True by simp
    next
      case False
      have "vm2 ! (n + k' * newM) = vm1 ! (n + k' * newM)"
        by (simp only: v2 False if_False)
      then show ?thesis using v1 False by auto
    qed
  qed
  ultimately show ?case using len2 by blast
qed

lemma pack_matrix_column:
  assumes "m \<le> rows A" "m \<le> cols A" "length (data A) = rows A * cols A" "k < dd"
    "length vm = newM * dd" "tri_offset m m = newM"
  shows "\<exists>vm'. pack_matrix A newM dd m k vm = Inr vm'
      \<and> length vm' = newM * dd
      \<and> (\<forall>n<newM. \<forall>k'<dd. vm' ! (n + k' * newM) =
            (if k' = k then Some (upper_triangle m A ! n) else vm ! (n + k' * newM)))"
proof -
  from pack_rows [where j = m and m = m and A = A and k = k and dd = dd and vm = vm
      and newM = newM, OF _ assms(1,2,3,4,5)] assms(6)
  obtain vm' where
    run: "for_each [0..<m] (\<lambda>at_row. for_each [at_row..<m] (pack_entry A newM dd k at_row))
            (vm, 0) = Inr (vm', tri_offset m m)"
    and len: "length vm' = newM * dd"
    and cells: "\<forall>n<newM. \<forall>k'<dd. vm' ! (n + k' * newM) =
            (if k' = k \<and> n < tri_offset m m then Some (upper_triangle m A ! n)
             else vm ! (n + k' * newM))"
    by auto
  have "pack_matrix A newM dd m k vm = Inr vm'"
    by (simp add: pack_matrix_def run)
  moreover have "\<forall>n<newM. \<forall>k'<dd. vm' ! (n + k' * newM) =
            (if k' = k then Some (upper_triangle m A ! n) else vm ! (n + k' * newM))"
    using cells assms(6) by simp
  ultimately show ?thesis using len by blast
qed

lemma pack_loop_columns:
  assumes "\<forall>A \<in> set As. m \<le> rows A \<and> m \<le> cols A \<and> length (data A) = rows A * cols A"
    "k + length As \<le> dd" "length vm = newM * dd" "tri_offset m m = newM"
  shows "\<exists>vm'. pack_loop As newM dd m k vm = Inr vm'
      \<and> length vm' = newM * dd
      \<and> (\<forall>n<newM. \<forall>k'<dd. vm' ! (n + k' * newM) =
            (if k \<le> k' \<and> k' < k + length As then Some (upper_triangle m (As ! (k' - k)) ! n)
             else vm ! (n + k' * newM)))"
  using assms(1,2,3)
proof (induction As arbitrary: k vm)
  case Nil
  then show ?case by auto
next
  case (Cons A As)
  have A: "m \<le> rows A" "m \<le> cols A" "length (data A) = rows A * cols A" and k: "k < dd"
    using Cons.prems by simp_all
  from pack_matrix_column [OF A k Cons.prems(3) assms(4)] obtain vm1 where
    one: "pack_matrix A newM dd m k vm = Inr vm1"
    and len1: "length vm1 = newM * dd"
    and cells1: "\<forall>n<newM. \<forall>k'<dd. vm1 ! (n + k' * newM) =
            (if k' = k then Some (upper_triangle m A ! n) else vm ! (n + k' * newM))"
    by blast
  have rest: "\<forall>A \<in> set As. m \<le> rows A \<and> m \<le> cols A \<and> length (data A) = rows A * cols A"
    and room: "Suc k + length As \<le> dd"
    using Cons.prems by simp_all
  from Cons.IH [OF rest room len1] obtain vm2 where
    run: "pack_loop As newM dd m (Suc k) vm1 = Inr vm2"
    and len2: "length vm2 = newM * dd"
    and cells2: "\<forall>n<newM. \<forall>k'<dd. vm2 ! (n + k' * newM) =
            (if Suc k \<le> k' \<and> k' < Suc k + length As
             then Some (upper_triangle m (As ! (k' - Suc k)) ! n)
             else vm1 ! (n + k' * newM))"
    by blast
  have "pack_loop (A # As) newM dd m k vm = Inr vm2"
    by (simp add: one run)
  moreover have "\<forall>n<newM. \<forall>k'<dd. vm2 ! (n + k' * newM) =
            (if k \<le> k' \<and> k' < k + length (A # As)
             then Some (upper_triangle m ((A # As) ! (k' - k)) ! n)
             else vm ! (n + k' * newM))"
  proof (intro allI impI)
    fix n k' assume n: "n < newM" and k': "k' < dd"
    consider "k' = k" | "Suc k \<le> k'" | "k' < k" by linarith
    then show "vm2 ! (n + k' * newM) =
            (if k \<le> k' \<and> k' < k + length (A # As)
             then Some (upper_triangle m ((A # As) ! (k' - k)) ! n)
             else vm ! (n + k' * newM))"
    proof cases
      case 1
      then show ?thesis using cells1 cells2 n k' by simp
    next
      case 2
      then have "(A # As) ! (k' - k) = As ! (k' - Suc k)"
        by (metis Suc_diff_le diff_Suc_Suc nth_Cons_Suc)
      then show ?thesis using 2 cells1 cells2 n k' by auto
    next
      case 3
      then show ?thesis using cells1 cells2 n k' by simp
    qed
  qed
  ultimately show ?case using len2 by blast
qed

lemma LMI_constructs:
  assumes "\<forall>A \<in> set rest. at_least (rows A0) A" "rows A0 * rows A0 < 2 ^ 31"
    "length rest < 2 ^ 31"
  shows "\<exists>vm. LMI (A0 # rest) = Inr \<lparr>matrices = A0 # rest, lmi_d = length rest,
                     lmi_m = rows A0, vectorMatrix = vm\<rparr>
      \<and> rows vm = tri_offset (rows A0) (rows A0) \<and> cols vm = length rest
      \<and> length (data vm) = rows vm * cols vm
      \<and> (\<forall>n<rows vm. \<forall>k<length rest.
            data vm ! (n + k * rows vm) = upper_triangle (rows A0) (rest ! k) ! n)"
proof -
  let ?m = "rows A0" and ?d = "length rest"
  let ?newM = "?m * (?m + 1) div 2"
  have newM: "tri_offset ?m ?m = ?newM" by (rule tri_offset_full)
  have wrap: "uint32 (?m * uint32 (?m + 1)) div 2 = ?newM" using assms(2) by (rule newM_exact)
  have d32: "uint32 ?d = ?d"
  proof -
    have "(2 :: nat) ^ 31 \<le> 2 ^ 32" by simp
    with assms(3) have "?d < 2 ^ 32" by (rule less_le_trans)
    then show ?thesis by (rule uint32_exact)
  qed
  have m32: "uint32 ?m = ?m"
  proof -
    have "?m < 2 ^ 16" using assms(2) by (rule size_below_2_16)
    moreover have "(2 :: nat) ^ 16 \<le> 2 ^ 32" by simp
    ultimately have "?m < 2 ^ 32" by (rule less_le_trans)
    then show ?thesis by (rule uint32_exact)
  qed
  have sizes: "\<forall>A \<in> set rest. ?m \<le> rows A \<and> ?m \<le> cols A \<and> length (data A) = rows A * cols A"
    using assms(1) by (simp add: at_least_def)
  from pack_loop_columns [where As = rest and m = ?m and k = 0 and dd = ?d
      and vm = "replicate (?newM * ?d) None" and newM = ?newM, OF sizes _ _ newM]
  obtain vm' where
    run: "pack_loop rest ?newM ?d ?m 0 (replicate (?newM * ?d) None) = Inr vm'"
    and len: "length vm' = ?newM * ?d"
    and cells: "\<forall>n<?newM. \<forall>k'<?d. vm' ! (n + k' * ?newM) =
            (if 0 \<le> k' \<and> k' < 0 + ?d then Some (upper_triangle ?m (rest ! (k' - 0)) ! n)
             else replicate (?newM * ?d) None ! (n + k' * ?newM))"
    by auto
  have "\<forall>n<?newM. \<forall>k<?d. vm' ! (n + k * ?newM) = Some (upper_triangle ?m (rest ! k) ! n)"
    using cells by simp
  from freeze_cells [OF len this] obtain cells' where
    fr: "freeze vm' = Inr cells'" and len': "length cells' = ?newM * ?d"
    and vals: "\<forall>n<?newM. \<forall>k<?d. cells' ! (n + k * ?newM) = upper_triangle ?m (rest ! k) ! n"
    by blast
  have "setVectorMatrix (A0 # rest) ?d ?m = Inr \<lparr>rows = ?newM, cols = ?d, data = cells'\<rparr>"
    by (simp only: setVectorMatrix_def Let_def wrap list.case run fr and_then_Inr)
  moreover have "copy_loop (A0 # rest) [] = A0 # rest" "length (A0 # rest) - 1 = ?d"
    by (simp_all add: copy_loop_append)
  ultimately have "LMI (A0 # rest) = Inr \<lparr>matrices = A0 # rest, lmi_d = ?d, lmi_m = ?m,
          vectorMatrix = \<lparr>rows = ?newM, cols = ?d, data = cells'\<rparr>\<rparr>"
    by (simp only: LMI_def Let_def list.case d32 m32 and_then_Inr)
  then show ?thesis using len' vals newM by auto
qed

lemma square_input_cases:
  assumes "square_input n ms"
  obtains A0 rest where "ms = A0 # rest" "square n A0" "\<forall>A \<in> set rest. square n A"
  using assms by (cases ms) (auto simp: square_input_def)

lemma square_at_least: "square n A \<Longrightarrow> at_least n A"
  by (simp add: square_def at_least_def)

lemma square_input_built:
  fixes ms :: "('a::comm_ring_1) matrix list"
  assumes "square_input n ms" "n * n < 2 ^ 31" "length ms \<le> 2 ^ 31"
  shows "\<exists>vm. LMI ms = Inr \<lparr>matrices = ms, lmi_d = length ms - 1, lmi_m = n, vectorMatrix = vm\<rparr>
           \<and> cols vm = length ms - 1"
proof -
  from assms(1) obtain A0 rest where
    ms: "ms = A0 # rest" and A0: "square n A0" and rest: "\<forall>A \<in> set rest. square n A"
    by (rule square_input_cases)
  have n: "rows A0 = n" using A0 by (simp add: square_def)
  have sizes: "\<forall>A \<in> set rest. at_least (rows A0) A" using rest n by (simp add: square_at_least)
  have bound: "rows A0 * rows A0 < 2 ^ 31" using assms(2) n by simp
  have count: "length rest < 2 ^ 31" using assms(3) ms by simp
  from LMI_constructs [OF sizes bound count] show ?thesis using ms n by auto
qed

subsection \<open>Inputs that are not validated\<close>

text \<open>
  A \<open>1 \<times> 1\<close> matrix followed by a \<open>2 \<times> 2\<close> matrix: the sizes differ, and the
  constructor returns a pencil with \<open>m = 1\<close> that packs the corner of the second matrix.
\<close>

theorem constructor_accepts_mismatched_sizes:
  "LMI [\<lparr>rows = 1, cols = 1, data = [0 :: int]\<rparr>, \<lparr>rows = 2, cols = 2, data = [1, 2, 2, 3]\<rparr>]
     = Inr \<lparr>matrices = [\<lparr>rows = 1, cols = 1, data = [0]\<rparr>,
                          \<lparr>rows = 2, cols = 2, data = [1, 2, 2, 3]\<rparr>],
            lmi_d = 1, lmi_m = 1, vectorMatrix = \<lparr>rows = 1, cols = 1, data = [1]\<rparr>\<rparr>"
  by code_simp

text \<open>
  C7, as the code has it. The constructor validates nothing. For every non-empty
  sequence in which each coefficient matrix \<open>A\<^sub>1, ..., A\<^sub>d\<close> has at least \<open>m\<close> rows and
  \<open>m\<close> columns, \<open>m\<close> the number of rows of \<open>A\<^sub>0\<close>, with \<open>m * m < 2^31\<close> and at most
  \<open>2^31\<close> matrices (the arithmetic of 32 bits is then exact), it returns a pencil: the
  matrices as given, \<open>d\<close> their number less one, \<open>m\<close>, and a packed matrix of \<open>m (m + 1) / 2\<close>
  rows and \<open>d\<close> columns whose columns are the upper triangles of the leading
  \<open>m \<times> m\<close> blocks. Whether the matrices are square, of one size or symmetric plays
  no part.
\<close>

theorem constructor_does_not_validate:
  assumes "ms \<noteq> []" "\<forall>A \<in> set (tl ms). at_least (rows (hd ms)) A"
    "rows (hd ms) * rows (hd ms) < 2 ^ 31" "length ms \<le> 2 ^ 31"
  shows "\<exists>vm. LMI ms = Inr \<lparr>matrices = ms, lmi_d = length ms - 1, lmi_m = rows (hd ms),
                   vectorMatrix = vm\<rparr>
      \<and> rows vm = rows (hd ms) * (rows (hd ms) + 1) div 2
      \<and> cols vm = length ms - 1
      \<and> data vm = concat (map (upper_triangle (rows (hd ms))) (tl ms))"
proof -
  from assms(1) obtain A0 rest where ms: "ms = A0 # rest" by (cases ms) auto
  let ?m = "rows A0"
  have sizes: "\<forall>A \<in> set rest. at_least ?m A" using assms(2) ms by simp
  have bound: "?m * ?m < 2 ^ 31" using assms(3) ms by simp
  have count: "length rest < 2 ^ 31" using assms(4) ms by simp
  from LMI_constructs [OF sizes bound count] obtain vm where
    built: "LMI (A0 # rest) = Inr \<lparr>matrices = A0 # rest, lmi_d = length rest,
                     lmi_m = ?m, vectorMatrix = vm\<rparr>"
    and vm: "rows vm = tri_offset ?m ?m" "cols vm = length rest"
      "length (data vm) = rows vm * cols vm"
      "\<forall>n<rows vm. \<forall>k<length rest. data vm ! (n + k * rows vm) = upper_triangle ?m (rest ! k) ! n"
    by blast
  let ?cols = "map (upper_triangle ?m) rest"
  have uniform: "\<forall>xs \<in> set ?cols. length xs = rows vm"
    using vm(1) by (simp add: length_upper_triangle)
  have "data vm = concat ?cols"
  proof (rule grid_eqI [where m = "rows vm" and n = "length rest"])
    show "length (data vm) = rows vm * length rest" using vm(2,3) by simp
    show "length (concat ?cols) = rows vm * length rest"
      using length_concat_uniform [OF uniform] by simp
  next
    fix r c assume r: "r < rows vm" and c: "c < length rest"
    have "concat ?cols ! (r + c * rows vm) = ?cols ! c ! r"
      using uniform _ r by (rule concat_nth_uniform) (simp add: c)
    then show "data vm ! (r + c * rows vm) = concat ?cols ! (r + c * rows vm)"
      using vm(4) r c by simp
  qed
  then show ?thesis using built vm(1,2) ms by (simp add: tri_offset_full)
qed

theorem constructor_does_not_validate_witness:
  "[\<lparr>rows = 1, cols = 1, data = [0 :: int]\<rparr>, \<lparr>rows = 2, cols = 2, data = [1, 2, 2, 3]\<rparr>] \<noteq> []
   \<and> (1 :: nat) * 1 < 2 ^ 31 \<and> (2 :: nat) \<le> 2 ^ 31
   \<and> (\<exists>vm. LMI [\<lparr>rows = 1, cols = 1, data = [0 :: int]\<rparr>,
                  \<lparr>rows = 2, cols = 2, data = [1, 2, 2, 3]\<rparr>]
            = Inr \<lparr>matrices = [\<lparr>rows = 1, cols = 1, data = [0]\<rparr>,
                                 \<lparr>rows = 2, cols = 2, data = [1, 2, 2, 3]\<rparr>],
                   lmi_d = 1, lmi_m = 1, vectorMatrix = vm\<rparr>
          \<and> rows vm = 1 \<and> cols vm = 1 \<and> data vm = [1])"
proof -
  let ?ms = "[\<lparr>rows = 1, cols = 1, data = [0 :: int]\<rparr>, \<lparr>rows = 2, cols = 2, data = [1, 2, 2, 3]\<rparr>]"
  have ne: "?ms \<noteq> []" by simp
  have sizes: "\<forall>A \<in> set (tl ?ms). at_least (rows (hd ?ms)) A" by (simp add: at_least_def)
  have ut: "concat (map (upper_triangle (rows (hd ?ms))) (tl ?ms)) = [1]"
    by (simp add: upper_triangle_def)
  have bound: "rows (hd ?ms) * rows (hd ?ms) < 2 ^ 31" by simp
  have count: "length ?ms \<le> 2 ^ 31" by simp
  show ?thesis using constructor_does_not_validate [OF ne sizes bound count] ut by simp
qed

subsection \<open>The constructor of the unspecialised template\<close>

text \<open>
  With room for two elements the loop on a one-element sequence is left in its third
  iteration, by the exception of \<open>push_back\<close>: the run ends.
\<close>

theorem generic_constructor_loop_ends:
  "copy_loop_generic 2 [7 :: nat] [] = Inl Allocation_Failure
   \<and> LMI_generic 2 (\<lambda>A. A) [7 :: nat] = Inl Allocation_Failure"
proof -
  have "copy_loop_generic 2 [7 :: nat] [] = copy_loop_generic 2 [7] [7]"
    by (subst copy_loop_generic.simps) (simp add: push_back_def)
  also have "\<dots> = copy_loop_generic 2 [7] [7, 7]"
    by (subst copy_loop_generic.simps) (simp add: push_back_def)
  also have "\<dots> = Inl Allocation_Failure"
    by (subst copy_loop_generic.simps) (simp add: push_back_def)
  finally show ?thesis by (simp add: LMI_generic_def)
qed

lemma copy_loop_generic_fails:
  "copy_loop_generic capacity (x # rest) copied = Inl Allocation_Failure"
proof (induction "capacity - length copied" arbitrary: copied rule: less_induct)
  case less
  show ?case
  proof (cases "length copied < capacity")
    case True
    then have "capacity - length (copied @ [x]) < capacity - length copied" by simp
    then have "copy_loop_generic capacity (x # rest) (copied @ [x]) = Inl Allocation_Failure"
      by (rule less.hyps)
    then show ?thesis using True
      by (subst copy_loop_generic.simps) (simp add: push_back_def)
  next
    case False
    then show ?thesis
      by (subst copy_loop_generic.simps) (simp add: push_back_def)
  qed
qed

text \<open>
  C10, as the code has it. On a non-empty sequence the generic constructor never
  returns normally: its copy loop compares the iterator with the end and never
  advances it, every iteration pushes the first matrix once more, and the loop is
  left only by the failure of \<open>push_back\<close> to grow the vector, whatever room the
  vector has. On the empty sequence the loop ends at once.
\<close>

theorem generic_constructor_never_returns:
  "(ms \<noteq> [] \<longrightarrow>
      copy_loop_generic capacity ms copied = Inl Allocation_Failure
    \<and> LMI_generic capacity nrows ms = Inl Allocation_Failure)
   \<and> copy_loop_generic capacity [] copied = Inr copied"
proof -
  have "copy_loop_generic capacity ms c = Inl Allocation_Failure" if "ms \<noteq> []" for c
    using that copy_loop_generic_fails [of capacity _ _ c] by (cases ms) simp_all
  moreover have "copy_loop_generic capacity [] copied = Inr copied"
    by (subst copy_loop_generic.simps) simp
  ultimately show ?thesis by (simp add: LMI_generic_def)
qed

theorem generic_constructor_never_returns_witness:
  "[3 :: nat] \<noteq> [] \<and> copy_loop_generic 5 [3 :: nat] [] = Inl Allocation_Failure
   \<and> LMI_generic 5 (\<lambda>A. A) [3 :: nat] = Inl Allocation_Failure
   \<and> copy_loop_generic 5 [] [3 :: nat] = Inr [3]"
  using generic_constructor_never_returns [of "[3 :: nat]" 5 "[]" "\<lambda>A. A"]
    generic_constructor_never_returns [of "[]" 5 "[3 :: nat]" "\<lambda>A. A"]
  by simp

section \<open>Evaluation\<close>

text \<open>
  The two copy passes, again from the innermost loop outwards. Each inner loop writes
  one entry of the packed product per iteration; the invariants say which cell of the
  output holds which entry.
\<close>

lemma copy_lower_inner:
  assumes "c \<le> hi" "hi \<le> m" "length res = m * m" "v + (hi - c) \<le> length a"
  shows "\<exists>res'. for_each [c..<hi] (copy_lower_entry a) (res, int (c * m + c), v)
                  = Inr (res', int (c * m + hi), v + (hi - c))
      \<and> length res' = m * m
      \<and> (\<forall>r<m. \<forall>c'<m. res' ! (r + c' * m) =
            (if c' = c \<and> c \<le> r \<and> r < hi then Some (a ! (v + (r - c))) else res ! (r + c' * m)))"
  using assms
proof (induction hi rule: dec_induct)
  case base
  then show ?case by auto
next
  case (step n)
  have pre: "n \<le> m" "v + (n - c) \<le> length a"
    using step.prems step.hyps by simp_all
  from step.IH [OF pre(1) step.prems(2) pre(2)] obtain res' where
    run: "for_each [c..<n] (copy_lower_entry a) (res, int (c * m + c), v)
            = Inr (res', int (c * m + n), v + (n - c))"
    and len: "length res' = m * m"
    and cells: "\<forall>r<m. \<forall>c'<m. res' ! (r + c' * m) =
            (if c' = c \<and> c \<le> r \<and> r < n then Some (a ! (v + (r - c))) else res ! (r + c' * m))"
    by blast
  from step.prems step.hyps have n: "n < m" and cm: "c < m" and ld: "v + (n - c) < length a"
    by simp_all
  have st: "c * m + n < length res'" using cell_bound [OF n cm] len by (simp add: add.commute)
  let ?res = "res'[c * m + n := Some (a ! (v + (n - c)))]"
  have "for_each [c..<Suc n] (copy_lower_entry a) (res, int (c * m + c), v)
          = and_then (for_each [c..<n] (copy_lower_entry a) (res, int (c * m + c), v))
              (copy_lower_entry a n)"
    using step.hyps(1) by (rule for_each_upt_Suc)
  also have "\<dots> = copy_lower_entry a n (res', int (c * m + n), v + (n - c))"
    by (simp only: run and_then_Inr)
  also have "\<dots> = Inr (?res, int (c * m + Suc n), v + (Suc n - c))"
  proof -
    have "store_at res' (int (c * m + n)) (a ! (v + (n - c))) = Inr ?res"
      using st by (simp add: store_at_def store_def del: of_nat_add of_nat_mult)
    moreover have "int (c * m + n) + 1 = int (c * m + Suc n)" by simp
    ultimately show ?thesis
      using ld step.hyps(1)
      by (simp add: copy_lower_entry_def load_def Suc_diff_le del: of_nat_add of_nat_mult)
  qed
  finally have "for_each [c..<Suc n] (copy_lower_entry a) (res, int (c * m + c), v)
          = Inr (?res, int (c * m + Suc n), v + (Suc n - c))" .
  moreover have "length ?res = m * m" using len by simp
  moreover have "\<forall>r<m. \<forall>c'<m. ?res ! (r + c' * m) =
            (if c' = c \<and> c \<le> r \<and> r < Suc n then Some (a ! (v + (r - c))) else res ! (r + c' * m))"
  proof (intro allI impI)
    fix r c' assume r: "r < m" and c': "c' < m"
    have in_range: "r + c' * m < length res'" using cell_bound [OF r c'] len by simp
    have eq: "(c * m + n = r + c' * m) = (n = r \<and> c = c')"
      using cell_inj [OF n r, of c c'] by (simp add: add.commute)
    show "?res ! (r + c' * m) =
            (if c' = c \<and> c \<le> r \<and> r < Suc n then Some (a ! (v + (r - c))) else res ! (r + c' * m))"
      using cells r c' step.hyps(1) in_range st
      by (auto simp: nth_list_update eq less_Suc_eq)
  qed
  ultimately show ?case by blast
qed

lemma copy_upper_inner:
  assumes "r \<le> hi" "hi \<le> m" "length res = m * m" "v + (hi - r) \<le> length a"
  shows "\<exists>res'. for_each [r..<hi] (copy_upper_entry a m) (res, r + r * m, v)
                  = Inr (res', r + hi * m, v + (hi - r))
      \<and> length res' = m * m
      \<and> (\<forall>r'<m. \<forall>c<m. res' ! (r' + c * m) =
            (if r' = r \<and> r \<le> c \<and> c < hi then Some (a ! (v + (c - r))) else res ! (r' + c * m)))"
  using assms
proof (induction hi rule: dec_induct)
  case base
  then show ?case by auto
next
  case (step n)
  have pre: "n \<le> m" "v + (n - r) \<le> length a"
    using step.prems step.hyps by simp_all
  from step.IH [OF pre(1) step.prems(2) pre(2)] obtain res' where
    run: "for_each [r..<n] (copy_upper_entry a m) (res, r + r * m, v) = Inr (res', r + n * m, v + (n - r))"
    and len: "length res' = m * m"
    and cells: "\<forall>r'<m. \<forall>c<m. res' ! (r' + c * m) =
            (if r' = r \<and> r \<le> c \<and> c < n then Some (a ! (v + (c - r))) else res ! (r' + c * m))"
    by blast
  from step.prems step.hyps have n: "n < m" and rm: "r < m" and ld: "v + (n - r) < length a"
    by simp_all
  have st: "r + n * m < length res'" using cell_bound [OF rm n] len by simp
  let ?res = "res'[r + n * m := Some (a ! (v + (n - r)))]"
  have "for_each [r..<Suc n] (copy_upper_entry a m) (res, r + r * m, v)
          = and_then (for_each [r..<n] (copy_upper_entry a m) (res, r + r * m, v))
              (copy_upper_entry a m n)"
    using step.hyps(1) by (rule for_each_upt_Suc)
  also have "\<dots> = copy_upper_entry a m n (res', r + n * m, v + (n - r))"
    by (simp only: run and_then_Inr)
  also have "\<dots> = Inr (?res, r + Suc n * m, v + (Suc n - r))"
    using ld st step.hyps(1)
    by (simp add: copy_upper_entry_def load_def store_def Suc_diff_le add.commute add.left_commute)
  finally have "for_each [r..<Suc n] (copy_upper_entry a m) (res, r + r * m, v)
          = Inr (?res, r + Suc n * m, v + (Suc n - r))" .
  moreover have "length ?res = m * m" using len by simp
  moreover have "\<forall>r'<m. \<forall>c<m. ?res ! (r' + c * m) =
            (if r' = r \<and> r \<le> c \<and> c < Suc n then Some (a ! (v + (c - r))) else res ! (r' + c * m))"
  proof (intro allI impI)
    fix r' c assume r': "r' < m" and c: "c < m"
    have in_range: "r' + c * m < length res'" using cell_bound [OF r' c] len by simp
    have eq: "(r + n * m = r' + c * m) = (r = r' \<and> n = c)"
      using cell_inj [OF rm r', of n c] by simp
    show "?res ! (r' + c * m) =
            (if r' = r \<and> r \<le> c \<and> c < Suc n then Some (a ! (v + (c - r))) else res ! (r' + c * m))"
      using cells r' c step.hyps(1) in_range st
      by (auto simp: nth_list_update eq less_Suc_eq)
  qed
  ultimately show ?case by blast
qed

lemma copy_lower_outer:
  assumes "k \<le> m" "length res = m * m" "tri_offset m m \<le> length a" "m * m < 2 ^ 31"
  shows "\<exists>res'. for_each [0..<k] (copy_lower_column a m) (res, 0) = Inr (res', tri_offset m k)
      \<and> length res' = m * m
      \<and> (\<forall>r<m. \<forall>c<m. res' ! (r + c * m) =
            (if c < k \<and> c \<le> r then Some (a ! (tri_offset m c + (r - c)))
             else res ! (r + c * m)))"
  using assms(1)
proof (induction k)
  case 0
  then show ?case using assms(2) by simp
next
  case (Suc k)
  then have k: "k < m" by simp
  from Suc.IH k obtain res1 where
    run: "for_each [0..<k] (copy_lower_column a m) (res, 0) = Inr (res1, tri_offset m k)"
    and len: "length res1 = m * m"
    and cells: "\<forall>r<m. \<forall>c<m. res1 ! (r + c * m) =
            (if c < k \<and> c \<le> r then Some (a ! (tri_offset m c + (r - c)))
             else res ! (r + c * m))"
    by auto
  have "tri_offset m (Suc k) \<le> tri_offset m m"
    using k by (intro tri_offset_mono) simp
  then have ld: "tri_offset m k + (m - k) \<le> length a" using assms(3) by simp
  from copy_lower_inner [where c = k and hi = m and m = m and res = res1
      and v = "tri_offset m k" and a = a, OF _ _ len ld] k obtain res2 where
    inner: "for_each [k..<m] (copy_lower_entry a) (res1, int (k * m + k), tri_offset m k)
              = Inr (res2, int (k * m + m), tri_offset m k + (m - k))"
    and len2: "length res2 = m * m"
    and cells2: "\<forall>r<m. \<forall>c'<m. res2 ! (r + c' * m) =
            (if c' = k \<and> k \<le> r \<and> r < m then Some (a ! (tri_offset m k + (r - k)))
             else res1 ! (r + c' * m))"
    by auto
  have "for_each [0..<Suc k] (copy_lower_column a m) (res, 0)
          = and_then (for_each [0..<k] (copy_lower_column a m) (res, 0)) (copy_lower_column a m k)"
    by (rule for_each_upt_Suc) simp
  also have "\<dots> = copy_lower_column a m k (res1, tri_offset m k)"
    by (simp only: run and_then_Inr)
  also have "\<dots> = Inr (res2, tri_offset m (Suc k))"
  proof -
    have "k * m < 2 ^ 31" using less_imp_le [OF k] assms(4) by (rule product_exact)
    then have "int32 (k * m) = int (k * m)" by (rule int32_exact)
    then have target: "int32 (k * m) + int k = int (k * m + k)" by (simp only: of_nat_add)
    show ?thesis
      by (simp only: copy_lower_column_def Let_def prod.case target inner and_then_Inr
            tri_offset.simps)
  qed
  finally have "for_each [0..<Suc k] (copy_lower_column a m) (res, 0)
                  = Inr (res2, tri_offset m (Suc k))" .
  moreover have "\<forall>r<m. \<forall>c<m. res2 ! (r + c * m) =
            (if c < Suc k \<and> c \<le> r then Some (a ! (tri_offset m c + (r - c)))
             else res ! (r + c * m))"
    using cells cells2 by (auto simp: less_Suc_eq)
  ultimately show ?case using len2 by blast
qed

lemma copy_upper_outer:
  assumes "k \<le> m" "length res = m * m" "tri_offset m m \<le> length a" "m * m < 2 ^ 31"
  shows "\<exists>res'. for_each [0..<k] (copy_upper_row a m) (res, 0) = Inr (res', tri_offset m k)
      \<and> length res' = m * m
      \<and> (\<forall>r<m. \<forall>c<m. res' ! (r + c * m) =
            (if r < k \<and> r \<le> c then Some (a ! (tri_offset m r + (c - r)))
             else res ! (r + c * m)))"
  using assms(1)
proof (induction k)
  case 0
  then show ?case using assms(2) by simp
next
  case (Suc k)
  then have k: "k < m" by simp
  from Suc.IH k obtain res1 where
    run: "for_each [0..<k] (copy_upper_row a m) (res, 0) = Inr (res1, tri_offset m k)"
    and len: "length res1 = m * m"
    and cells: "\<forall>r<m. \<forall>c<m. res1 ! (r + c * m) =
            (if r < k \<and> r \<le> c then Some (a ! (tri_offset m r + (c - r)))
             else res ! (r + c * m))"
    by auto
  have "tri_offset m (Suc k) \<le> tri_offset m m"
    using k by (intro tri_offset_mono) simp
  then have ld: "tri_offset m k + (m - k) \<le> length a" using assms(3) by simp
  from copy_upper_inner [where r = k and hi = m and m = m and res = res1
      and v = "tri_offset m k" and a = a, OF _ _ len ld] k obtain res2 where
    inner: "for_each [k..<m] (copy_upper_entry a m) (res1, k + k * m, tri_offset m k)
              = Inr (res2, k + m * m, tri_offset m k + (m - k))"
    and len2: "length res2 = m * m"
    and cells2: "\<forall>r'<m. \<forall>c<m. res2 ! (r' + c * m) =
            (if r' = k \<and> k \<le> c \<and> c < m then Some (a ! (tri_offset m k + (c - k)))
             else res1 ! (r' + c * m))"
    by auto
  have "for_each [0..<Suc k] (copy_upper_row a m) (res, 0)
          = and_then (for_each [0..<k] (copy_upper_row a m) (res, 0)) (copy_upper_row a m k)"
    by (rule for_each_upt_Suc) simp
  also have "\<dots> = copy_upper_row a m k (res1, tri_offset m k)"
    by (simp only: run and_then_Inr)
  also have "\<dots> = Inr (res2, tri_offset m (Suc k))"
  proof -
    have "k * m < 2 ^ 31" using less_imp_le [OF k] assms(4) by (rule product_exact)
    moreover have "(2 :: nat) ^ 31 \<le> 2 ^ 32" by simp
    ultimately have "k * m < 2 ^ 32" by (rule less_le_trans)
    then have target: "uint32 (k * m) = k * m" by (rule uint32_exact)
    show ?thesis
      by (simp only: copy_upper_row_def Let_def prod.case target inner and_then_Inr
            tri_offset.simps)
  qed
  finally have "for_each [0..<Suc k] (copy_upper_row a m) (res, 0)
                  = Inr (res2, tri_offset m (Suc k))" .
  moreover have "\<forall>r<m. \<forall>c<m. res2 ! (r + c * m) =
            (if r < Suc k \<and> r \<le> c then Some (a ! (tri_offset m r + (c - r)))
             else res ! (r + c * m))"
    using cells cells2 by (auto simp: less_Suc_eq)
  ultimately show ?case using len2 by blast
qed

lemma two_passes:
  assumes "tri_offset m m \<le> length a" "m * m < 2 ^ 31"
  shows "\<exists>res1 v1 res2 v2.
      for_each [0..<m] (copy_lower_column a m) (replicate (m * m) None, 0) = Inr (res1, v1)
    \<and> for_each [0..<m] (copy_upper_row a m) (res1, 0) = Inr (res2, v2)
    \<and> length res2 = m * m
    \<and> (\<forall>r<m. \<forall>c<m. res2 ! (r + c * m) = Some (unpacked_cell m a r c))"
proof -
  from copy_lower_outer [where k = m and m = m and res = "replicate (m * m) None" and a = a] assms obtain res1 where
    run1: "for_each [0..<m] (copy_lower_column a m) (replicate (m * m) None, 0)
             = Inr (res1, tri_offset m m)"
    and len1: "length res1 = m * m"
    and cells1: "\<forall>r<m. \<forall>c<m. res1 ! (r + c * m) =
            (if c < m \<and> c \<le> r then Some (a ! (tri_offset m c + (r - c)))
             else replicate (m * m) None ! (r + c * m))"
    by auto
  from copy_upper_outer [where k = m and m = m and res = res1 and a = a] assms len1 obtain res2 where
    run2: "for_each [0..<m] (copy_upper_row a m) (res1, 0) = Inr (res2, tri_offset m m)"
    and len2: "length res2 = m * m"
    and cells2: "\<forall>r<m. \<forall>c<m. res2 ! (r + c * m) =
            (if r < m \<and> r \<le> c then Some (a ! (tri_offset m r + (c - r)))
             else res1 ! (r + c * m))"
    by auto
  have "\<forall>r<m. \<forall>c<m. res2 ! (r + c * m) = Some (unpacked_cell m a r c)"
    using cells1 cells2 by (auto simp: unpacked_cell_def)
  then show ?thesis using run1 run2 len2 by blast
qed

subsection \<open>Evaluation through the packed matrix\<close>

text \<open>The cells of the matrix that the compiled branch returns.\<close>

lemma evaluateWithoutA0_cells:
  fixes vm :: "('a::comm_ring_1) matrix"
  assumes vm: "rows vm = tri_offset m m" "cols vm = length rest"
      "length (data vm) = rows vm * cols vm"
      "\<forall>n<rows vm. \<forall>k<length rest.
            data vm ! (n + k * rows vm) = upper_triangle m (rest ! k) ! n"
    and x: "length x = length rest"
    and bound: "m * m < 2 ^ 31"
  shows "\<exists>cells. evaluateWithoutA0 \<lparr>matrices = ms, lmi_d = dd, lmi_m = m, vectorMatrix = vm\<rparr> x
            = Inr \<lparr>rows = m, cols = m, data = cells\<rparr>
      \<and> length cells = m * m
      \<and> (\<forall>r<m. \<forall>c<m. cells ! (r + c * m) =
            (\<Sum>j\<leftarrow>[0..<length rest].
               data (rest ! j) ! (min r c + max r c * rows (rest ! j)) * x ! j))"
proof -
  let ?newM = "tri_offset m m" and ?d = "length rest"
  let ?a = "map (\<lambda>i. \<Sum>j\<leftarrow>[0..<?d]. data vm ! (i + j * ?newM) * x ! j) [0..<?newM]"
  have mv: "mat_vec vm x = Inr ?a"
    using vm(1,2,3) x by (simp add: mat_vec_def)
  have a_nth: "?a ! (tri_offset m r + (c - r))
      = (\<Sum>j\<leftarrow>[0..<?d]. data (rest ! j) ! (r + c * rows (rest ! j)) * x ! j)"
    if "r \<le> c" "c < m" for r c
  proof -
    have n: "tri_offset m r + (c - r) < ?newM" using that by (rule unpacked_index_bound)
    have "?a ! (tri_offset m r + (c - r))
        = (\<Sum>j\<leftarrow>[0..<?d]. data vm ! (tri_offset m r + (c - r) + j * ?newM) * x ! j)"
      using n by simp
    also have "\<dots> = (\<Sum>j\<leftarrow>[0..<?d]. data (rest ! j) ! (r + c * rows (rest ! j)) * x ! j)"
    proof (rule sum_list_upt_cong)
      fix j assume j: "j < ?d"
      have "data vm ! (tri_offset m r + (c - r) + j * ?newM)
          = upper_triangle m (rest ! j) ! (tri_offset m r + (c - r))"
        using vm(1,4) n j by simp
      also have "\<dots> = data (rest ! j) ! (r + c * rows (rest ! j))"
        using that by (rule upper_triangle_nth)
      finally show "data vm ! (tri_offset m r + (c - r) + j * ?newM) * x ! j
          = data (rest ! j) ! (r + c * rows (rest ! j)) * x ! j" by simp
    qed
    finally show ?thesis .
  qed
  have "?newM \<le> length ?a" by simp
  from two_passes [OF this bound] obtain res1 v1 res2 v2 where
    p1: "for_each [0..<m] (copy_lower_column ?a m) (replicate (m * m) None, 0) = Inr (res1, v1)"
    and p2: "for_each [0..<m] (copy_upper_row ?a m) (res1, 0) = Inr (res2, v2)"
    and len: "length res2 = m * m"
    and cells: "\<forall>r<m. \<forall>c<m. res2 ! (r + c * m) = Some (unpacked_cell m ?a r c)"
    by blast
  from freeze_cells [OF len cells] obtain cells' where
    fr: "freeze res2 = Inr cells'" and len': "length cells' = m * m"
    and vals: "\<forall>r<m. \<forall>c<m. cells' ! (r + c * m) = unpacked_cell m ?a r c"
    by blast
  have "evaluateWithoutA0 \<lparr>matrices = ms, lmi_d = dd, lmi_m = m, vectorMatrix = vm\<rparr> x
          = Inr \<lparr>rows = m, cols = m, data = cells'\<rparr>"
    by (simp add: evaluateWithoutA0_def mv p1 p2 fr del: upt.simps map_map)
  moreover have "\<forall>r<m. \<forall>c<m. cells' ! (r + c * m) =
            (\<Sum>j\<leftarrow>[0..<?d]. data (rest ! j) ! (min r c + max r c * rows (rest ! j)) * x ! j)"
  proof (intro allI impI)
    fix r c assume r: "r < m" and c: "c < m"
    show "cells' ! (r + c * m) =
            (\<Sum>j\<leftarrow>[0..<?d]. data (rest ! j) ! (min r c + max r c * rows (rest ! j)) * x ! j)"
    proof (cases "r \<le> c")
      case True
      then have "unpacked_cell m ?a r c = ?a ! (tri_offset m r + (c - r))"
        by (simp add: unpacked_cell_def)
      then show ?thesis using vals r c a_nth [OF True c] True by (simp add: min_def max_def)
    next
      case False
      then have le: "c \<le> r" by simp
      from False have "unpacked_cell m ?a r c = ?a ! (tri_offset m c + (r - c))"
        by (simp add: unpacked_cell_def)
      then show ?thesis using vals r c a_nth [OF le r] False by (simp add: min_def max_def)
    qed
  qed
  ultimately show ?thesis using len' by blast
qed

lemma naive_fold:
  fixes acc :: "('a::comm_ring_1) matrix"
  assumes "\<forall>A \<in> set As. length (data A) = n" "length (data acc) = n" "length xs = length As"
  shows "rows (foldl (\<lambda>res (xi, A). mat_plus res (mat_scale xi A)) acc (zip xs As)) = rows acc
    \<and> cols (foldl (\<lambda>res (xi, A). mat_plus res (mat_scale xi A)) acc (zip xs As)) = cols acc
    \<and> length (data (foldl (\<lambda>res (xi, A). mat_plus res (mat_scale xi A)) acc (zip xs As))) = n
    \<and> (\<forall>p<n. data (foldl (\<lambda>res (xi, A). mat_plus res (mat_scale xi A)) acc (zip xs As)) ! p
          = data acc ! p + (\<Sum>j\<leftarrow>[0..<length As]. xs ! j * data (As ! j) ! p))"
  using assms
proof (induction As arbitrary: xs rule: rev_induct)
  case Nil
  then show ?case by simp
next
  case (snoc A As)
  let ?f = "\<lambda>res (xi, A). mat_plus res (mat_scale xi (A :: 'a matrix))"
  from snoc.prems(3) obtain xs' x' where xs: "xs = xs' @ [x']" and len: "length xs' = length As"
    by (metis length_Suc_conv_rev)
  let ?R = "foldl ?f acc (zip xs' As)"
  have IH: "rows ?R = rows acc \<and> cols ?R = cols acc \<and> length (data ?R) = n
    \<and> (\<forall>p<n. data ?R ! p = data acc ! p + (\<Sum>j\<leftarrow>[0..<length As]. xs' ! j * data (As ! j) ! p))"
    using snoc.IH [of xs'] snoc.prems len by simp
  have step: "foldl ?f acc (zip xs (As @ [A])) = mat_plus ?R (mat_scale x' A)"
    using xs len by simp
  have A: "length (data A) = n" using snoc.prems(1) by simp
  have same: "(\<Sum>j\<leftarrow>[0..<length As]. xs ! j * data ((As @ [A]) ! j) ! p)
      = (\<Sum>j\<leftarrow>[0..<length As]. xs' ! j * data (As ! j) ! p)" for p
    by (rule sum_list_upt_cong) (simp add: xs len nth_append)
  have last: "xs ! length As = x'" "(As @ [A]) ! length As = A"
    using xs len by (simp_all add: nth_append)
  have "\<forall>p<n. data (mat_plus ?R (mat_scale x' A)) ! p
          = data acc ! p + (\<Sum>j\<leftarrow>[0..<length (As @ [A])]. xs ! j * data ((As @ [A]) ! j) ! p)"
  proof (intro allI impI)
    fix p assume p: "p < n"
    have "data (mat_plus ?R (mat_scale x' A)) ! p = data ?R ! p + x' * data A ! p"
      using IH A p by (simp add: mat_plus_def mat_scale_def)
    also have "\<dots> = data acc ! p
        + ((\<Sum>j\<leftarrow>[0..<length As]. xs' ! j * data (As ! j) ! p) + x' * data A ! p)"
      using IH p by (simp add: add.assoc)
    also have "\<dots> = data acc ! p
        + (\<Sum>j\<leftarrow>[0..<length (As @ [A])]. xs ! j * data ((As @ [A]) ! j) ! p)"
      using same [of p] last by simp
    finally show "data (mat_plus ?R (mat_scale x' A)) ! p
          = data acc ! p + (\<Sum>j\<leftarrow>[0..<length (As @ [A])]. xs ! j * data ((As @ [A]) ! j) ! p)" .
  qed
  moreover have "rows (mat_plus ?R (mat_scale x' A)) = rows acc"
    "cols (mat_plus ?R (mat_scale x' A)) = cols acc"
    "length (data (mat_plus ?R (mat_scale x' A))) = n"
    using IH A by (simp_all add: mat_plus_def mat_scale_def)
  ultimately show ?case by (simp only: step)
qed

lemma naive_cells:
  fixes rest :: "('a::comm_ring_1) matrix list"
  assumes "\<forall>A \<in> set rest. square m A" "length x = length rest"
  shows "\<exists>cells. evaluateWithoutA0_naive
            \<lparr>matrices = A0 # rest, lmi_d = dd, lmi_m = m, vectorMatrix = vm\<rparr> x
            = \<lparr>rows = m, cols = m, data = cells\<rparr>
      \<and> length cells = m * m
      \<and> (\<forall>p<m * m. cells ! p = (\<Sum>j\<leftarrow>[0..<length rest]. x ! j * data (rest ! j) ! p))"
proof -
  let ?N = "foldl (\<lambda>res (xi, A). mat_plus res (mat_scale xi A)) (mat_zero m m) (zip x rest)"
  have sizes: "\<forall>A \<in> set rest. length (data A) = m * m"
    using assms(1) by (simp add: square_def)
  have zero: "length (data (mat_zero m m :: 'a matrix)) = m * m" by (simp add: mat_zero_def)
  note nf = naive_fold [OF sizes zero assms(2)]
  have "rows ?N = m" "cols ?N = m" using nf by (simp_all add: mat_zero_def)
  then have "?N = \<lparr>rows = m, cols = m, data = data ?N\<rparr>" by (cases ?N) simp
  moreover have "\<forall>p<m * m. data ?N ! p = (\<Sum>j\<leftarrow>[0..<length rest]. x ! j * data (rest ! j) ! p)"
    using nf by (simp add: mat_zero_def)
  moreover have "length (data ?N) = m * m" using nf by simp
  ultimately have "?N = \<lparr>rows = m, cols = m, data = data ?N\<rparr> \<and> length (data ?N) = m * m
      \<and> (\<forall>p<m * m. data ?N ! p = (\<Sum>j\<leftarrow>[0..<length rest]. x ! j * data (rest ! j) ! p))"
    by blast
  then have "\<exists>cells. ?N = \<lparr>rows = m, cols = m, data = cells\<rparr> \<and> length cells = m * m
      \<and> (\<forall>p<m * m. cells ! p = (\<Sum>j\<leftarrow>[0..<length rest]. x ! j * data (rest ! j) ! p))"
    by (rule exI)
  then show ?thesis by (simp add: evaluateWithoutA0_naive_def)
qed

text \<open>What construction and the compiled evaluation give on square matrices of one size.\<close>

lemma pencil_evaluateWithoutA0:
  fixes ms :: "('a::comm_ring_1) matrix list"
  assumes "square_input n ms" "length x = length ms - 1" "n * n < 2 ^ 31"
    "length ms \<le> 2 ^ 31"
  shows "\<exists>vm cells.
      LMI ms = Inr \<lparr>matrices = ms, lmi_d = length ms - 1, lmi_m = n, vectorMatrix = vm\<rparr>
    \<and> evaluateWithoutA0 \<lparr>matrices = ms, lmi_d = length ms - 1, lmi_m = n, vectorMatrix = vm\<rparr> x
        = Inr \<lparr>rows = n, cols = n, data = cells\<rparr>
    \<and> length cells = n * n
    \<and> (\<forall>r<n. \<forall>c<n. cells ! (r + c * n) =
          (\<Sum>j\<leftarrow>[0..<length ms - 1]. data (tl ms ! j) ! (min r c + max r c * n) * x ! j))"
proof -
  from assms(1) obtain A0 rest where
    ms: "ms = A0 # rest" and A0: "square n A0" and rest: "\<forall>A \<in> set rest. square n A"
    by (rule square_input_cases)
  have n: "rows A0 = n" using A0 by (simp add: square_def)
  have sizes: "\<forall>A \<in> set rest. at_least (rows A0) A" using rest n by (simp add: square_at_least)
  have bound: "rows A0 * rows A0 < 2 ^ 31" using assms(3) n by simp
  have count: "length rest < 2 ^ 31" using assms(4) ms by simp
  from LMI_constructs [OF sizes bound count] obtain vm where
    built: "LMI (A0 # rest) = Inr \<lparr>matrices = A0 # rest, lmi_d = length rest,
                     lmi_m = rows A0, vectorMatrix = vm\<rparr>"
    and vm: "rows vm = tri_offset (rows A0) (rows A0)" "cols vm = length rest"
      "length (data vm) = rows vm * cols vm"
      "\<forall>n<rows vm. \<forall>k<length rest.
            data vm ! (n + k * rows vm) = upper_triangle (rows A0) (rest ! k) ! n"
    by blast
  have x: "length x = length rest" using assms(2) ms by simp
  from evaluateWithoutA0_cells [where ms = ms and dd = "length rest", OF vm x bound]
  obtain cells where
    ev: "evaluateWithoutA0 \<lparr>matrices = ms, lmi_d = length rest, lmi_m = rows A0,
            vectorMatrix = vm\<rparr> x = Inr \<lparr>rows = rows A0, cols = rows A0, data = cells\<rparr>"
    and len: "length cells = rows A0 * rows A0"
    and vals: "\<forall>r<rows A0. \<forall>c<rows A0. cells ! (r + c * rows A0) =
            (\<Sum>j\<leftarrow>[0..<length rest].
               data (rest ! j) ! (min r c + max r c * rows (rest ! j)) * x ! j)"
    by blast
  have "\<forall>r<n. \<forall>c<n. cells ! (r + c * n) =
          (\<Sum>j\<leftarrow>[0..<length rest]. data (rest ! j) ! (min r c + max r c * n) * x ! j)"
  proof (intro allI impI)
    fix r c assume "r < n" "c < n"
    then have "cells ! (r + c * n) = (\<Sum>j\<leftarrow>[0..<length rest].
               data (rest ! j) ! (min r c + max r c * rows (rest ! j)) * x ! j)"
      using vals n by simp
    also have "\<dots> = (\<Sum>j\<leftarrow>[0..<length rest]. data (rest ! j) ! (min r c + max r c * n) * x ! j)"
      by (rule sum_list_upt_cong) (use rest in \<open>simp add: square_def\<close>)
    finally show "cells ! (r + c * n) =
          (\<Sum>j\<leftarrow>[0..<length rest]. data (rest ! j) ! (min r c + max r c * n) * x ! j)" .
  qed
  then show ?thesis using built ev len n ms by auto
qed

lemma symmetric_cell:
  "symmetric A \<Longrightarrow> rows A = n \<Longrightarrow> r < n \<Longrightarrow> c < n
     \<Longrightarrow> data A ! (min r c + max r c * n) = data A ! (r + c * n)"
  by (cases "r \<le> c") (auto simp: symmetric_def min_def max_def)

lemma symmetricI:
  assumes "rows A = n" "\<And>r c. r < n \<Longrightarrow> c < n \<Longrightarrow> data A ! (r + c * n) = data A ! (c + r * n)"
  shows "symmetric A"
  using assms by (simp add: symmetric_def)

lemma symmetricD:
  "symmetric A \<Longrightarrow> rows A = n \<Longrightarrow> r < n \<Longrightarrow> c < n
     \<Longrightarrow> data A ! (r + c * n) = data A ! (c + r * n)"
  by (simp add: symmetric_def)

text \<open>What \<open>evaluate\<close> adds to the result of \<open>evaluateWithoutA0\<close>.\<close>

lemma pencil_evaluate:
  fixes ms :: "('a::comm_ring_1) matrix list"
  assumes "square_input n ms" "length x = length ms - 1" "n * n < 2 ^ 31"
    "length ms \<le> 2 ^ 31"
  shows "\<exists>vm cells.
      LMI ms = Inr \<lparr>matrices = ms, lmi_d = length ms - 1, lmi_m = n, vectorMatrix = vm\<rparr>
    \<and> evaluateWithoutA0 \<lparr>matrices = ms, lmi_d = length ms - 1, lmi_m = n, vectorMatrix = vm\<rparr> x
        = Inr \<lparr>rows = n, cols = n, data = cells\<rparr>
    \<and> evaluate \<lparr>matrices = ms, lmi_d = length ms - 1, lmi_m = n, vectorMatrix = vm\<rparr> x
        = Inr \<lparr>rows = n, cols = n, data = map2 (+) cells (data (hd ms))\<rparr>
    \<and> length cells = n * n
    \<and> (\<forall>r<n. \<forall>c<n. cells ! (r + c * n) =
          (\<Sum>j\<leftarrow>[0..<length ms - 1]. data (tl ms ! j) ! (min r c + max r c * n) * x ! j))"
proof -
  from pencil_evaluateWithoutA0 [OF assms] obtain vm cells where
    built: "LMI ms = Inr \<lparr>matrices = ms, lmi_d = length ms - 1, lmi_m = n, vectorMatrix = vm\<rparr>"
    and ev: "evaluateWithoutA0 \<lparr>matrices = ms, lmi_d = length ms - 1, lmi_m = n,
               vectorMatrix = vm\<rparr> x = Inr \<lparr>rows = n, cols = n, data = cells\<rparr>"
    and len: "length cells = n * n"
    and vals: "\<forall>r<n. \<forall>c<n. cells ! (r + c * n) =
          (\<Sum>j\<leftarrow>[0..<length ms - 1]. data (tl ms ! j) ! (min r c + max r c * n) * x ! j)"
    by blast
  from assms(1) obtain A0 rest where ms: "ms = A0 # rest" and A0: "square n A0"
    by (rule square_input_cases)
  have first: "load ms 0 = Inr (hd ms)" and hd: "square n (hd ms)"
    using ms A0 by (simp_all add: load_def)
  have "evaluate \<lparr>matrices = ms, lmi_d = length ms - 1, lmi_m = n, vectorMatrix = vm\<rparr> x
        = add_assign \<lparr>rows = n, cols = n, data = cells\<rparr> (hd ms)"
    by (simp only: evaluate_def lmi.select_convs ev first and_then_Inr)
  also have "\<dots> = Inr \<lparr>rows = n, cols = n, data = map2 (+) cells (data (hd ms))\<rparr>"
    using hd len by (simp add: add_assign_def square_def)
  finally have "evaluate \<lparr>matrices = ms, lmi_d = length ms - 1, lmi_m = n, vectorMatrix = vm\<rparr> x
        = Inr \<lparr>rows = n, cols = n, data = map2 (+) cells (data (hd ms))\<rparr>" .
  then show ?thesis using built ev len vals by blast
qed

subsection \<open>The concrete pencils\<close>

lemma scenario_square: "square_input 2 scenario"
  by code_simp

lemma scenario_built:
  "LMI scenario = Inr \<lparr>matrices = scenario, lmi_d = 2, lmi_m = 2,
      vectorMatrix = \<lparr>rows = 3, cols = 2, data = [1, 0, - 1, 0, 1, 0]\<rparr>\<rparr>"
  by code_simp

lemma scenario_evaluate:
  "evaluate \<lparr>matrices = scenario, lmi_d = 2, lmi_m = 2,
      vectorMatrix = \<lparr>rows = 3, cols = 2, data = [1, 0, - 1, 0, 1, 0]\<rparr>\<rparr> [1, 0]
     = Inr \<lparr>rows = 2, cols = 2, data = [1, 0, 0, - 1]\<rparr>"
  "evaluate \<lparr>matrices = scenario, lmi_d = 2, lmi_m = 2,
      vectorMatrix = \<lparr>rows = 3, cols = 2, data = [1, 0, - 1, 0, 1, 0]\<rparr>\<rparr> [- 1, 0]
     = Inr \<lparr>rows = 2, cols = 2, data = [- 1, 0, 0, 1]\<rparr>"
  by code_simp+

lemma scenario_forms:
  "quadratic_forms \<lparr>matrices = scenario, lmi_d = 2, lmi_m = 2,
      vectorMatrix = \<lparr>rows = 3, cols = 2, data = [1, 0, - 1, 0, 1, 0]\<rparr>\<rparr> [1, 0] = [1, 0]"
  by code_simp

lemma degenerate_square: "square_input 2 degenerate"
  by code_simp

lemma degenerate_built:
  "LMI degenerate = Inr \<lparr>matrices = degenerate, lmi_d = 1, lmi_m = 2,
      vectorMatrix = \<lparr>rows = 3, cols = 1, data = [1, 0, - 1]\<rparr>\<rparr>"
  by code_simp

lemma degenerate_forms:
  "quadratic_forms \<lparr>matrices = degenerate, lmi_d = 1, lmi_m = 2,
      vectorMatrix = \<lparr>rows = 3, cols = 1, data = [1, 0, - 1]\<rparr>\<rparr> [1, 1] = [0]"
  by code_simp

subsection \<open>Properties of evaluation\<close>

text \<open>
  C1. On a pencil built from symmetric \<open>n \<times> n\<close> matrices \<open>A\<^sub>0, ..., A\<^sub>d\<close> with
  \<open>n * n < 2^31\<close>, at most \<open>2^31\<close> of them, and a vector \<open>x\<close> of length \<open>d\<close>, construction
  succeeds and the compiled, packed branch of \<open>evaluateWithoutA0\<close> returns exactly
  the matrix of the plain weighted sum \<open>x\<^sub>1 A\<^sub>1 + ... + x\<^sub>d A\<^sub>d\<close>, in any commutative
  ring.
\<close>

theorem packed_evaluation_equals_naive:
  fixes ms :: "('a::comm_ring_1) matrix list"
  assumes "pencil_input n ms" "length x = length ms - 1" "n * n < 2 ^ 31"
    "length ms \<le> 2 ^ 31"
  shows "\<exists>L. LMI ms = Inr L \<and> lmi_d L = length ms - 1 \<and> lmi_m L = n
           \<and> evaluateWithoutA0 L x = Inr (evaluateWithoutA0_naive L x)"
proof -
  have sq: "square_input n ms" using assms(1) by (simp add: pencil_input_def square_input_def)
  from sq obtain A0 rest where
    ms: "ms = A0 # rest" and rest: "\<forall>A \<in> set rest. square n A"
    by (rule square_input_cases)
  have d: "length ms - 1 = length rest" and tl: "tl ms = rest" using ms by simp_all
  from pencil_evaluateWithoutA0 [OF sq assms(2,3,4)] obtain vm cells where
    built: "LMI ms = Inr \<lparr>matrices = ms, lmi_d = length ms - 1, lmi_m = n, vectorMatrix = vm\<rparr>"
    and ev: "evaluateWithoutA0 \<lparr>matrices = ms, lmi_d = length ms - 1, lmi_m = n,
               vectorMatrix = vm\<rparr> x = Inr \<lparr>rows = n, cols = n, data = cells\<rparr>"
    and len: "length cells = n * n"
    and vals: "\<forall>r<n. \<forall>c<n. cells ! (r + c * n) =
          (\<Sum>j\<leftarrow>[0..<length ms - 1]. data (tl ms ! j) ! (min r c + max r c * n) * x ! j)"
    by blast
  let ?L = "\<lparr>matrices = ms, lmi_d = length ms - 1, lmi_m = n, vectorMatrix = vm\<rparr>"
  have x: "length x = length rest" using assms(2) d by simp
  from naive_cells [OF rest x, of A0 "length ms - 1" vm] obtain cells' where
    nv: "evaluateWithoutA0_naive ?L x = \<lparr>rows = n, cols = n, data = cells'\<rparr>"
    and len': "length cells' = n * n"
    and vals': "\<forall>p<n * n. cells' ! p = (\<Sum>j\<leftarrow>[0..<length rest]. x ! j * data (rest ! j) ! p)"
    using ms by auto
  have "cells = cells'"
  proof (rule grid_eqI [OF len len'])
    fix r c assume r: "r < n" and c: "c < n"
    have "cells ! (r + c * n)
        = (\<Sum>j\<leftarrow>[0..<length rest]. data (rest ! j) ! (min r c + max r c * n) * x ! j)"
      using vals r c d tl by simp
    also have "\<dots> = (\<Sum>j\<leftarrow>[0..<length rest]. x ! j * data (rest ! j) ! (r + c * n))"
    proof (rule sum_list_upt_cong)
      fix j assume "j < length rest"
      then have "rest ! j \<in> set ms" using ms by simp
      then have "symmetric (rest ! j)" "rows (rest ! j) = n"
        using assms(1) by (simp_all add: pencil_input_def square_def)
      then have "data (rest ! j) ! (min r c + max r c * n) = data (rest ! j) ! (r + c * n)"
        using r c by (rule symmetric_cell)
      then show "data (rest ! j) ! (min r c + max r c * n) * x ! j
          = x ! j * data (rest ! j) ! (r + c * n)"
        by (simp add: mult.commute)
    qed
    also have "\<dots> = cells' ! (r + c * n)"
      using vals' cell_bound [OF r c] by simp
    finally show "cells ! (r + c * n) = cells' ! (r + c * n)" .
  qed
  then have "evaluateWithoutA0 ?L x = Inr (evaluateWithoutA0_naive ?L x)"
    using ev nv by simp
  then show ?thesis using built by auto
qed

theorem packed_evaluation_equals_naive_witness:
  "pencil_input 2 scenario \<and> length [2, 5 :: real] = length scenario - 1
   \<and> (2 :: nat) * 2 < 2 ^ 31 \<and> length scenario \<le> 2 ^ 31
   \<and> (\<exists>L. LMI scenario = Inr L \<and> lmi_d L = length scenario - 1 \<and> lmi_m L = 2
          \<and> evaluateWithoutA0 L [2, 5] = Inr (evaluateWithoutA0_naive L [2, 5]))"
proof -
  have input: "pencil_input 2 scenario"
    by code_simp
  have len: "length [2, 5 :: real] = length scenario - 1"
    by (simp add: scenario_def)
  have bound: "(2 :: nat) * 2 < 2 ^ 31" by simp
  have count: "length scenario \<le> 2 ^ 31" by (simp add: scenario_def)
  show ?thesis
    using packed_evaluation_equals_naive [OF input len bound count] input len bound count
    by blast
qed

text \<open>
  C2. On a pencil of square matrices of one size \<open>n\<close> with \<open>n * n < 2^31\<close>, at most
  \<open>2^31\<close> of them, and a vector \<open>x\<close> of length \<open>d\<close>, both evaluations return, and the
  matrix of \<open>evaluate\<close> is the matrix of \<open>evaluateWithoutA0\<close> plus \<open>A\<^sub>0\<close>: cell by cell,
  the one sum \<open>R + A\<^sub>0\<close> in this order.
\<close>

theorem evaluate_adds_A0:
  fixes ms :: "('a::comm_ring_1) matrix list"
  assumes "square_input n ms" "length x = length ms - 1" "n * n < 2 ^ 31"
    "length ms \<le> 2 ^ 31"
  shows "\<exists>L R. LMI ms = Inr L \<and> evaluateWithoutA0 L x = Inr R
           \<and> evaluate L x = Inr (mat_plus R (hd ms))
           \<and> (\<forall>r<n. \<forall>c<n. data (mat_plus R (hd ms)) ! (r + c * n)
                  = data R ! (r + c * n) + data (hd ms) ! (r + c * n))"
proof -
  from pencil_evaluate [OF assms] obtain vm cells where
    built: "LMI ms = Inr \<lparr>matrices = ms, lmi_d = length ms - 1, lmi_m = n, vectorMatrix = vm\<rparr>"
    and ev: "evaluateWithoutA0 \<lparr>matrices = ms, lmi_d = length ms - 1, lmi_m = n,
               vectorMatrix = vm\<rparr> x = Inr \<lparr>rows = n, cols = n, data = cells\<rparr>"
    and ev': "evaluate \<lparr>matrices = ms, lmi_d = length ms - 1, lmi_m = n, vectorMatrix = vm\<rparr> x
        = Inr \<lparr>rows = n, cols = n, data = map2 (+) cells (data (hd ms))\<rparr>"
    and len: "length cells = n * n"
    by blast
  from assms(1) obtain A0 rest where ms: "ms = A0 # rest" and A0: "square n A0"
    by (rule square_input_cases)
  have hd: "square n (hd ms)" using ms A0 by simp
  let ?R = "\<lparr>rows = n, cols = n, data = cells\<rparr>"
  have plus: "mat_plus ?R (hd ms) = \<lparr>rows = n, cols = n, data = map2 (+) cells (data (hd ms))\<rparr>"
    by (simp add: mat_plus_def)
  have "\<forall>r<n. \<forall>c<n. data (mat_plus ?R (hd ms)) ! (r + c * n)
          = data ?R ! (r + c * n) + data (hd ms) ! (r + c * n)"
  proof (intro allI impI)
    fix r c assume "r < n" "c < n"
    then have "r + c * n < n * n" by (rule cell_bound)
    then show "data (mat_plus ?R (hd ms)) ! (r + c * n)
          = data ?R ! (r + c * n) + data (hd ms) ! (r + c * n)"
      using len hd by (simp add: plus square_def)
  qed
  then show ?thesis using built ev ev' plus by (metis (no_types, lifting))
qed

theorem evaluate_adds_A0_witness:
  "square_input 2 scenario \<and> length [2, 5 :: real] = length scenario - 1
   \<and> (2 :: nat) * 2 < 2 ^ 31 \<and> length scenario \<le> 2 ^ 31
   \<and> (\<exists>L R. LMI scenario = Inr L \<and> evaluateWithoutA0 L [2, 5] = Inr R
          \<and> evaluate L [2, 5] = Inr (mat_plus R (hd scenario)))"
proof -
  have len: "length [2, 5 :: real] = length scenario - 1"
    by (simp add: scenario_def)
  have bound: "(2 :: nat) * 2 < 2 ^ 31" by simp
  have count: "length scenario \<le> 2 ^ 31" by (simp add: scenario_def)
  show ?thesis
    using evaluate_adds_A0 [OF scenario_square len bound count] scenario_square len bound count
    by blast
qed

text \<open>
  C3. On a pencil built from symmetric \<open>n \<times> n\<close> matrices with \<open>n * n < 2^31\<close>, at most
  \<open>2^31\<close> of them, and a vector \<open>x\<close> of length \<open>d\<close>, \<open>evaluate\<close> returns a symmetric
  \<open>n \<times> n\<close> matrix: the cells \<open>(r, c)\<close> and \<open>(c, r)\<close> are equal for all \<open>r, c < n\<close>.
\<close>

theorem evaluate_symmetric:
  fixes ms :: "('a::comm_ring_1) matrix list"
  assumes "pencil_input n ms" "length x = length ms - 1" "n * n < 2 ^ 31"
    "length ms \<le> 2 ^ 31"
  shows "\<exists>L E. LMI ms = Inr L \<and> evaluate L x = Inr E \<and> square n E \<and> symmetric E
           \<and> (\<forall>r<n. \<forall>c<n. data E ! (r + c * n) = data E ! (c + r * n))"
proof -
  have sq: "square_input n ms" using assms(1) by (simp add: pencil_input_def square_input_def)
  from pencil_evaluate [OF sq assms(2,3,4)] obtain vm cells where
    built: "LMI ms = Inr \<lparr>matrices = ms, lmi_d = length ms - 1, lmi_m = n, vectorMatrix = vm\<rparr>"
    and ev': "evaluate \<lparr>matrices = ms, lmi_d = length ms - 1, lmi_m = n, vectorMatrix = vm\<rparr> x
        = Inr \<lparr>rows = n, cols = n, data = map2 (+) cells (data (hd ms))\<rparr>"
    and len: "length cells = n * n"
    and vals: "\<forall>r<n. \<forall>c<n. cells ! (r + c * n) =
          (\<Sum>j\<leftarrow>[0..<length ms - 1]. data (tl ms ! j) ! (min r c + max r c * n) * x ! j)"
    by blast
  from sq obtain A0 rest where ms: "ms = A0 # rest" and A0: "square n A0"
    by (rule square_input_cases)
  have hd: "square n (hd ms)" "symmetric (hd ms)"
    using assms(1) ms A0 by (simp_all add: pencil_input_def)
  let ?D = "map2 (+) cells (data (hd ms))"
  let ?E = "\<lparr>rows = n, cols = n, data = ?D\<rparr>"
  have cellsE: "?D ! (r + c * n) = ?D ! (c + r * n)" if "r < n" "c < n" for r c
  proof -
    have b: "r + c * n < n * n" "c + r * n < n * n" using that by (simp_all add: cell_bound)
    have "cells ! (r + c * n) = cells ! (c + r * n)"
      using vals that by (simp add: min.commute max.commute)
    moreover have "data (hd ms) ! (r + c * n) = data (hd ms) ! (c + r * n)"
      using hd that by (intro symmetricD) (simp_all add: square_def)
    ultimately show ?thesis using b len hd by (simp add: square_def)
  qed
  have "square n ?E" using len hd by (simp add: square_def)
  moreover have "symmetric ?E" by (rule symmetricI [where n = n]) (simp_all add: cellsE)
  moreover have "\<forall>r<n. \<forall>c<n. data ?E ! (r + c * n) = data ?E ! (c + r * n)"
    using cellsE by simp
  ultimately show ?thesis using built ev' by blast
qed

theorem evaluate_symmetric_witness:
  "pencil_input 2 scenario \<and> length [1, 0 :: real] = length scenario - 1
   \<and> (2 :: nat) * 2 < 2 ^ 31 \<and> length scenario \<le> 2 ^ 31
   \<and> (\<exists>L E. LMI scenario = Inr L \<and> evaluate L [1, 0] = Inr E \<and> square 2 E \<and> symmetric E)"
proof -
  have input: "pencil_input 2 scenario"
    by code_simp
  have len: "length [1, 0 :: real] = length scenario - 1"
    by (simp add: scenario_def)
  have bound: "(2 :: nat) * 2 < 2 ^ 31" by simp
  have count: "length scenario \<le> 2 ^ 31" by (simp add: scenario_def)
  show ?thesis
    using evaluate_symmetric [OF input len bound count] input len bound count by blast
qed

section \<open>Membership\<close>

text \<open>
  C6. The matrix form of \<open>isNegativeSemidefinite\<close> is true exactly when the value the
  eigenvalue routine returns for the matrix is at most \<open>0\<close>; the vector form is the
  matrix form applied to the matrix that \<open>evaluate\<close> returns for the position, and
  nothing else enters. On a pencil of square matrices of one size \<open>n\<close> with
  \<open>n * n < 2^31\<close>, at most \<open>2^31\<close> of them, and a position of length \<open>d\<close> it returns
  that verdict.
\<close>

theorem isNegativeSemidefinite_delegates:
  "isNegativeSemidefinite findSymEigenvalue M = (findSymEigenvalue M \<le> 0)
   \<and> isNegativeSemidefinite_pos findSymEigenvalue L pos =
       (case evaluate L pos of
          Inl f \<Rightarrow> Inl f
        | Inr mat \<Rightarrow> Inr (isNegativeSemidefinite findSymEigenvalue mat))
   \<and> (square_input n ms \<and> length x = length ms - 1 \<and> n * n < 2 ^ 31
        \<and> length ms \<le> 2 ^ 31 \<longrightarrow>
        (\<exists>P E. LMI ms = Inr P \<and> evaluate P x = Inr E
           \<and> isNegativeSemidefinite_pos findSymEigenvalue P x = Inr (findSymEigenvalue E \<le> 0)))"
proof -
  have "\<exists>P E. LMI ms = Inr P \<and> evaluate P x = Inr E
           \<and> isNegativeSemidefinite_pos findSymEigenvalue P x = Inr (findSymEigenvalue E \<le> 0)"
    if "square_input n ms" "length x = length ms - 1" "n * n < 2 ^ 31" "length ms \<le> 2 ^ 31"
  proof -
    from pencil_evaluate [OF that] obtain P E where
      "LMI ms = Inr P" "evaluate P x = Inr E"
      by blast
    moreover from this have
      "isNegativeSemidefinite_pos findSymEigenvalue P x = Inr (findSymEigenvalue E \<le> 0)"
      by (simp add: isNegativeSemidefinite_pos_def isNegativeSemidefinite_def)
    ultimately show ?thesis by blast
  qed
  then show ?thesis
    by (simp add: isNegativeSemidefinite_def isNegativeSemidefinite_pos_def and_then_def
        split: sum.splits)
qed

theorem isNegativeSemidefinite_delegates_witness:
  "square_input 2 scenario \<and> length [1, 0 :: real] = length scenario - 1
   \<and> (2 :: nat) * 2 < 2 ^ 31 \<and> length scenario \<le> 2 ^ 31
   \<and> (\<exists>P E. LMI scenario = Inr P \<and> evaluate P [1, 0] = Inr E
          \<and> isNegativeSemidefinite_pos (\<lambda>M. 1) P [1, 0] = Inr ((1 :: real) \<le> 0))"
proof -
  have input: "square_input 2 scenario" by code_simp
  have len: "length [1, 0 :: real] = length scenario - 1" by (simp add: scenario_def)
  have bound: "(2 :: nat) * 2 < 2 ^ 31" by simp
  have count: "length scenario \<le> 2 ^ 31" by (simp add: scenario_def)
  show ?thesis
    using isNegativeSemidefinite_delegates [where findSymEigenvalue = "\<lambda>M. 1" and n = 2
        and ms = scenario and x = "[1, 0]"] input len bound count
    by blast
qed

lemma eigenvalue_le:
  assumes "returns_maximum_eigenvalue f M" "eigenvalue M lam"
  shows "lam \<le> f M"
  using assms by (simp add: returns_maximum_eigenvalue_def)

lemma eigenvalue_one:
  "eigenvalue \<lparr>rows = 2, cols = 2, data = [1, 0, 0, - 1]\<rparr> 1"
  "eigenvalue \<lparr>rows = 2, cols = 2, data = [- 1, 0, 0, 1]\<rparr> 1"
proof -
  have mv: "mat_vec \<lparr>rows = 2, cols = 2, data = [1, 0, 0, - 1 :: real]\<rparr> [1, 0] = Inr [1, 0]"
    "mat_vec \<lparr>rows = 2, cols = 2, data = [- 1, 0, 0, 1 :: real]\<rparr> [0, 1] = Inr [0, 1]"
    by code_simp+
  have nz: "\<exists>i < length [1, 0 :: real]. [1, 0 :: real] ! i \<noteq> 0"
    "\<exists>i < length [0, 1 :: real]. [0, 1 :: real] ! i \<noteq> 0"
    by (rule exI [of _ 0], simp) (rule exI [of _ 1], simp)
  show "eigenvalue \<lparr>rows = 2, cols = 2, data = [1, 0, 0, - 1]\<rparr> 1"
    unfolding eigenvalue_def using mv(1) nz(1) by (intro exI [of _ "[1, 0]"]) simp
  show "eigenvalue \<lparr>rows = 2, cols = 2, data = [- 1, 0, 0, 1]\<rparr> 1"
    unfolding eigenvalue_def using mv(2) nz(2) by (intro exI [of _ "[0, 1]"]) simp
qed

lemma eigenvalue_diag_le_one:
  assumes "eigenvalue \<lparr>rows = 2, cols = 2, data = [s, 0, 0, t]\<rparr> mu" "s \<le> 1" "t \<le> 1"
  shows "mu \<le> 1"
proof -
  let ?M = "\<lparr>rows = 2, cols = 2, data = [s, 0, 0, t]\<rparr>"
  from assms(1) obtain v where len: "length v = 2" and nz: "\<exists>i < length v. v ! i \<noteq> 0"
    and mv: "mat_vec ?M v = Inr (map (\<lambda>a. mu * a) v)"
    unfolding eigenvalue_def by fastforce
  from len obtain a b where v: "v = [a, b]"
    by (metis (no_types, opaque_lifting) length_0_conv length_Suc_conv numeral_2_eq_2)
  have "mat_vec ?M [a, b] = Inr [s * a, t * b]"
    by (simp add: mat_vec_def numeral_2_eq_2)
  with mv v have eqs: "s * a = mu * a" "t * b = mu * b" by simp_all
  from nz v have "a \<noteq> 0 \<or> b \<noteq> 0" by (auto simp: less_Suc_eq numeral_2_eq_2)
  then show ?thesis
  proof
    assume "a \<noteq> 0"
    with eqs(1) have "mu = s" by simp
    then show ?thesis using assms(2) by simp
  next
    assume "b \<noteq> 0"
    with eqs(2) have "mu = t" by simp
    then show ?thesis using assms(3) by simp
  qed
qed

text \<open>
  C9. The pencil with \<open>A\<^sub>0 = 0\<close>, \<open>A\<^sub>1 = [[1, 0], [0, -1]]\<close>, \<open>A\<^sub>2 = [[0, 1], [1, 0]]\<close>:
  \<open>evaluate (1, 0) = [[1, 0], [0, -1]]\<close> and \<open>evaluate (-1, 0) = [[-1, 0], [0, 1]]\<close>, and
  both points are not members, for every eigenvalue routine that returns the maximum
  eigenvalue of these two matrices.
\<close>

theorem scenario_values:
  assumes "returns_maximum_eigenvalue f \<lparr>rows = 2, cols = 2, data = [1, 0, 0, - 1]\<rparr>"
    and "returns_maximum_eigenvalue f \<lparr>rows = 2, cols = 2, data = [- 1, 0, 0, 1]\<rparr>"
  shows "\<exists>L. LMI scenario = Inr L \<and> lmi_d L = 2 \<and> lmi_m L = 2
    \<and> evaluate L [1, 0] = Inr \<lparr>rows = 2, cols = 2, data = [1, 0, 0, - 1]\<rparr>
    \<and> isNegativeSemidefinite_pos f L [1, 0] = Inr False
    \<and> evaluate L [- 1, 0] = Inr \<lparr>rows = 2, cols = 2, data = [- 1, 0, 0, 1]\<rparr>
    \<and> isNegativeSemidefinite_pos f L [- 1, 0] = Inr False"
proof -
  let ?L = "\<lparr>matrices = scenario, lmi_d = 2, lmi_m = 2,
      vectorMatrix = \<lparr>rows = 3, cols = 2, data = [1, 0, - 1, 0, 1, 0]\<rparr>\<rparr>"
  have "1 \<le> f \<lparr>rows = 2, cols = 2, data = [1, 0, 0, - 1]\<rparr>"
    using assms(1) eigenvalue_one(1) by (rule eigenvalue_le)
  then have "isNegativeSemidefinite_pos f ?L [1, 0] = Inr False"
    by (simp add: isNegativeSemidefinite_pos_def scenario_evaluate isNegativeSemidefinite_def)
  moreover have "1 \<le> f \<lparr>rows = 2, cols = 2, data = [- 1, 0, 0, 1]\<rparr>"
    using assms(2) eigenvalue_one(2) by (rule eigenvalue_le)
  then have "isNegativeSemidefinite_pos f ?L [- 1, 0] = Inr False"
    by (simp add: isNegativeSemidefinite_pos_def scenario_evaluate isNegativeSemidefinite_def)
  ultimately show ?thesis using scenario_built scenario_evaluate by simp
qed

theorem scenario_values_witness:
  "returns_maximum_eigenvalue (\<lambda>M. 1) \<lparr>rows = 2, cols = 2, data = [1, 0, 0, - 1]\<rparr>
   \<and> returns_maximum_eigenvalue (\<lambda>M. 1) \<lparr>rows = 2, cols = 2, data = [- 1, 0, 0, 1]\<rparr>
   \<and> (\<exists>L. LMI scenario = Inr L \<and> lmi_d L = 2 \<and> lmi_m L = 2
        \<and> evaluate L [1, 0] = Inr \<lparr>rows = 2, cols = 2, data = [1, 0, 0, - 1]\<rparr>
        \<and> isNegativeSemidefinite_pos (\<lambda>M. 1) L [1, 0] = Inr False
        \<and> evaluate L [- 1, 0] = Inr \<lparr>rows = 2, cols = 2, data = [- 1, 0, 0, 1]\<rparr>
        \<and> isNegativeSemidefinite_pos (\<lambda>M. 1) L [- 1, 0] = Inr False)"
proof -
  have c1: "returns_maximum_eigenvalue (\<lambda>M. 1) \<lparr>rows = 2, cols = 2, data = [1, 0, 0, - 1]\<rparr>"
    unfolding returns_maximum_eigenvalue_def
    using eigenvalue_one(1) eigenvalue_diag_le_one [of 1 "- 1"] by simp
  have c2: "returns_maximum_eigenvalue (\<lambda>M. 1) \<lparr>rows = 2, cols = 2, data = [- 1, 0, 0, 1]\<rparr>"
    unfolding returns_maximum_eigenvalue_def
    using eigenvalue_one(2) eigenvalue_diag_le_one [of "- 1" 1] by simp
  show ?thesis using scenario_values [OF c1 c2] c1 c2 by blast
qed

section \<open>The boundary gradient\<close>

lemma gradient_entry_value:
  assumes "i + 1 < length ms" "square n (ms ! (i + 1))" "length e = n" "i < length ret"
  shows "gradient_entry ms e i ret = Inr (ret[i := Some (quadratic_form (ms ! (i + 1)) e)])"
proof -
  let ?A = "ms ! (i + 1)"
  let ?Ae = "map (\<lambda>r. \<Sum>c\<leftarrow>[0..<n]. data ?A ! (r + c * n) * e ! c) [0..<n]"
  have A: "rows ?A = n" "cols ?A = n" "length (data ?A) = n * n"
    using assms(2) by (simp_all add: square_def)
  have ld: "load ms (i + 1) = Inr ?A" using assms(1) by (simp add: load_def)
  have mv: "mat_vec ?A e = Inr ?Ae" using A assms(3) by (simp add: mat_vec_def)
  have "dot e ?Ae = Inr (\<Sum>r\<leftarrow>[0..<n]. e ! r * ?Ae ! r)"
    using assms(3) by (simp add: dot_def)
  also have "(\<Sum>r\<leftarrow>[0..<n]. e ! r * ?Ae ! r)
      = (\<Sum>r\<leftarrow>[0..<n]. e ! r * (\<Sum>c\<leftarrow>[0..<n]. data ?A ! (r + c * n) * e ! c))"
    by (rule sum_list_upt_cong) simp
  also have "\<dots> = quadratic_form ?A e"
    using A assms(3) by (simp add: quadratic_form_def)
  finally have dt: "dot e ?Ae = Inr (quadratic_form ?A e)" .
  show ?thesis
    using assms(4) by (simp only: gradient_entry_def ld mv dt and_then_Inr store_def if_True)
qed

lemma gradient_loop:
  assumes "k \<le> dd" "dd < length ms" "\<forall>i<dd. square n (ms ! (i + 1))" "length e = n"
    "length ret = dd"
  shows "\<exists>ret'. for_each [0..<k] (gradient_entry ms e) ret = Inr ret'
      \<and> length ret' = dd
      \<and> (\<forall>i<dd. ret' ! i =
            (if i < k then Some (quadratic_form (ms ! (i + 1)) e) else ret ! i))"
  using assms(1)
proof (induction k)
  case 0
  then show ?case using assms(5) by simp
next
  case (Suc k)
  then have k: "k < dd" by simp
  from Suc.IH k obtain ret1 where
    run: "for_each [0..<k] (gradient_entry ms e) ret = Inr ret1"
    and len: "length ret1 = dd"
    and cells: "\<forall>i<dd. ret1 ! i =
            (if i < k then Some (quadratic_form (ms ! (i + 1)) e) else ret ! i)"
    by auto
  let ?ret = "ret1[k := Some (quadratic_form (ms ! (k + 1)) e)]"
  have entry: "gradient_entry ms e k ret1 = Inr ?ret"
    using k assms(2,3,4) len by (intro gradient_entry_value) simp_all
  have "for_each [0..<Suc k] (gradient_entry ms e) ret
          = and_then (for_each [0..<k] (gradient_entry ms e) ret) (gradient_entry ms e k)"
    by (rule for_each_upt_Suc) simp
  also have "\<dots> = Inr ?ret" by (simp only: run and_then_Inr entry)
  finally have "for_each [0..<Suc k] (gradient_entry ms e) ret = Inr ?ret" .
  moreover have "\<forall>i<dd. ?ret ! i =
            (if i < Suc k then Some (quadratic_form (ms ! (i + 1)) e) else ret ! i)"
    using cells len by (auto simp: nth_list_update less_Suc_eq)
  ultimately show ?case using len by auto
qed

text \<open>
  On square matrices of the size of \<open>e\<close> the gradient is the normalised vector of the
  quadratic forms, whatever \<open>p\<close> is.
\<close>

lemma pencil_gradient:
  assumes "square_input n ms" "length e = n"
  shows "normalizedDeterminantGradient nrm
           \<lparr>matrices = ms, lmi_d = length ms - 1, lmi_m = mm, vectorMatrix = vm\<rparr> p e
         = Inr (nrm (quadratic_forms
                  \<lparr>matrices = ms, lmi_d = length ms - 1, lmi_m = mm, vectorMatrix = vm\<rparr> e))"
proof -
  let ?d = "length ms - 1"
  let ?L = "\<lparr>matrices = ms, lmi_d = ?d, lmi_m = mm, vectorMatrix = vm\<rparr>"
  from assms(1) have ne: "ms \<noteq> []" and sq: "\<forall>A \<in> set ms. square n A"
    by (simp_all add: square_input_def)
  have d: "?d < length ms" using ne by (cases ms) simp_all
  have each: "\<forall>i<?d. square n (ms ! (i + 1))" using sq d by simp
  from gradient_loop [where k = ?d and dd = ?d and ret = "replicate ?d None", OF _ d each assms(2)]
  obtain ret where
    run: "for_each [0..<?d] (gradient_entry ms e) (replicate ?d None) = Inr ret"
    and len: "length ret = ?d"
    and cells: "\<forall>i<?d. ret ! i =
            (if i < ?d then Some (quadratic_form (ms ! (i + 1)) e) else replicate ?d None ! i)"
    by auto
  have some: "\<forall>i<?d. ret ! i = Some (quadratic_form (ms ! (i + 1)) e)" using cells by simp
  then have "None \<notin> set ret" using len by (auto simp: in_set_conv_nth)
  then have fr: "freeze ret = Inr (map the ret)" by (simp add: freeze_def)
  have "map the ret = quadratic_forms ?L e"
    unfolding quadratic_forms_def
    by (rule nth_equalityI) (use len some in simp_all)
  then have "Inr (nrm (map the ret)) = Inr (nrm (quadratic_forms ?L e))"
    by (rule arg_cong)
  then show ?thesis
    by (simp only: normalizedDeterminantGradient_def Let_def lmi.select_convs run fr and_then_Inr)
qed

lemma squaredNorm_nonneg: "0 \<le> squaredNorm v"
  unfolding squaredNorm_def by (induction v) simp_all

lemma squaredNorm_zero: "squaredNorm v = 0 \<Longrightarrow> v = replicate (length v) 0"
proof (induction v)
  case Nil
  then show ?case by simp
next
  case (Cons x v)
  have "0 \<le> x * x" "0 \<le> squaredNorm v" by (simp_all add: squaredNorm_nonneg)
  moreover have "x * x + squaredNorm v = 0" using Cons.prems by (simp add: squaredNorm_def)
  ultimately have "x * x = 0" "squaredNorm v = 0" by linarith+
  then show ?case using Cons.IH by simp
qed

lemma squaredNorm_replicate_zero: "squaredNorm (replicate k 0) = 0"
  unfolding squaredNorm_def by (induction k) simp_all

lemma squaredNorm_scaled: "squaredNorm (map (\<lambda>q. q / s) v) = squaredNorm v / (s * s)"
  unfolding squaredNorm_def by (induction v) (simp_all add: add_divide_distrib)

lemma normalize_nonzero:
  assumes "v \<noteq> replicate (length v) 0"
  shows "0 < sqrt (squaredNorm v)"
    and "normalize_vec v = map (\<lambda>q. Fin (q / sqrt (squaredNorm v))) v"
    and "sqrt (squaredNorm (map (\<lambda>q. q / sqrt (squaredNorm v)) v)) = 1"
proof -
  have "squaredNorm v \<noteq> 0" using assms squaredNorm_zero by blast
  then have pos: "0 < squaredNorm v" using squaredNorm_nonneg [of v] by linarith
  then show s: "0 < sqrt (squaredNorm v)" by simp
  then show "normalize_vec v = map (\<lambda>q. Fin (q / sqrt (squaredNorm v))) v"
    by (simp add: normalize_vec_def divide_by_norm_def)
  have "sqrt (squaredNorm v) * sqrt (squaredNorm v) = squaredNorm v"
    using pos by simp
  then have "squaredNorm (map (\<lambda>q. q / sqrt (squaredNorm v)) v) = 1"
    using pos by (simp add: squaredNorm_scaled)
  then show "sqrt (squaredNorm (map (\<lambda>q. q / sqrt (squaredNorm v)) v)) = 1" by simp
qed

lemma normalize_zero: "normalize_vec (replicate k 0) = replicate k NaN"
  by (simp add: normalize_vec_def squaredNorm_replicate_zero divide_by_norm_def)

lemma length_quadratic_forms: "length (quadratic_forms L e) = lmi_d L"
  by (simp add: quadratic_forms_def)

text \<open>
  C4. On a pencil of at most \<open>2^31\<close> matrices of size \<open>n \<times> n\<close> with \<open>n * n < 2^31\<close>, a
  point \<open>p\<close> and a vector \<open>e\<close> of length \<open>n\<close>, \<open>normalizedDeterminantGradient\<close> returns a vector of length \<open>d\<close> whose coordinate
  \<open>i - 1\<close> is the quadratic form \<open>e\<^sup>T A\<^sub>i e\<close> divided by one number for all \<open>i\<close>, the norm
  \<open>\<parallel>g\<parallel>\<close> of the vector \<open>g\<close> of the quadratic forms. When \<open>g\<close> is not zero, that number
  is positive, every coordinate is a real number and the Euclidean norm of the result
  is \<open>1\<close>. The library's \<open>normalize\<close> is the one of the spec.
\<close>

theorem gradient_is_normalized:
  assumes "square_input n ms" "length e = n" "n * n < 2 ^ 31" "length ms \<le> 2 ^ 31"
  shows "\<exists>L ret. LMI ms = Inr L \<and> lmi_d L = length ms - 1
      \<and> normalizedDeterminantGradient normalize_vec L p e = Inr ret \<and> length ret = lmi_d L
      \<and> ret = map (divide_by_norm (sqrt (squaredNorm (quadratic_forms L e))))
                 (quadratic_forms L e)
      \<and> (quadratic_forms L e \<noteq> replicate (lmi_d L) 0 \<longrightarrow>
           0 < sqrt (squaredNorm (quadratic_forms L e))
         \<and> ret = map (\<lambda>q. Fin (q / sqrt (squaredNorm (quadratic_forms L e))))
                   (quadratic_forms L e)
         \<and> sqrt (squaredNorm (map (\<lambda>q. q / sqrt (squaredNorm (quadratic_forms L e)))
                   (quadratic_forms L e))) = 1)"
proof -
  from square_input_built [OF assms(1,3,4)] obtain vm where
    built: "LMI ms = Inr \<lparr>matrices = ms, lmi_d = length ms - 1, lmi_m = n, vectorMatrix = vm\<rparr>"
    by blast
  let ?L = "\<lparr>matrices = ms, lmi_d = length ms - 1, lmi_m = n, vectorMatrix = vm\<rparr>"
  let ?g = "quadratic_forms ?L e"
  have run: "normalizedDeterminantGradient normalize_vec ?L p e = Inr (normalize_vec ?g)"
    using assms(1,2) by (rule pencil_gradient)
  have len: "length (normalize_vec ?g) = lmi_d ?L"
    by (simp add: normalize_vec_def length_quadratic_forms)
  have shape: "normalize_vec ?g = map (divide_by_norm (sqrt (squaredNorm ?g))) ?g"
    by (simp add: normalize_vec_def)
  have "0 < sqrt (squaredNorm ?g)
      \<and> normalize_vec ?g = map (\<lambda>q. Fin (q / sqrt (squaredNorm ?g))) ?g
      \<and> sqrt (squaredNorm (map (\<lambda>q. q / sqrt (squaredNorm ?g)) ?g)) = 1"
    if "?g \<noteq> replicate (lmi_d ?L) 0"
  proof -
    from that have "?g \<noteq> replicate (length ?g) 0" by (simp add: length_quadratic_forms)
    then show ?thesis using normalize_nonzero [of ?g] by blast
  qed
  then show ?thesis
    using built run len shape by (intro exI [of _ ?L] exI [of _ "normalize_vec ?g"]) simp
qed

theorem gradient_is_normalized_witness:
  "square_input 2 scenario \<and> length [1, 0 :: real] = 2 \<and> (2 :: nat) * 2 < 2 ^ 31
   \<and> length scenario \<le> 2 ^ 31
   \<and> (\<exists>L. LMI scenario = Inr L
          \<and> normalizedDeterminantGradient normalize_vec L [0, 0] [1, 0] = Inr [Fin 1, Fin 0])"
proof -
  let ?P = "\<lparr>matrices = scenario, lmi_d = 2, lmi_m = 2,
      vectorMatrix = \<lparr>rows = 3, cols = 2, data = [1, 0, - 1, 0, 1, 0]\<rparr>\<rparr>"
  have len: "length [1, 0 :: real] = 2" by simp
  have bound: "(2 :: nat) * 2 < 2 ^ 31" by simp
  have count: "length scenario \<le> 2 ^ 31" by (simp add: scenario_def)
  from gradient_is_normalized [OF scenario_square len bound count, of "[0, 0]"] obtain L ret where
    built: "LMI scenario = Inr L"
    and run: "normalizedDeterminantGradient normalize_vec L [0, 0] [1, 0] = Inr ret"
    and unit: "quadratic_forms L [1, 0] \<noteq> replicate (lmi_d L) 0 \<longrightarrow>
         ret = map (\<lambda>q. Fin (q / sqrt (squaredNorm (quadratic_forms L [1, 0]))))
                 (quadratic_forms L [1, 0])"
    by blast
  have L: "L = ?P" using built scenario_built by simp
  have forms: "quadratic_forms L [1, 0] = [1, 0]" unfolding L by (rule scenario_forms)
  have d: "replicate (lmi_d L) 0 = [0, 0 :: real]" by (simp add: L numeral_2_eq_2)
  from unit have "[1, 0] \<noteq> [0, 0 :: real] \<longrightarrow>
      ret = map (\<lambda>q. Fin (q / sqrt (squaredNorm [1, 0]))) [1, 0]"
    by (simp only: forms d)
  then have "ret = [Fin 1, Fin 0]"
    by (simp add: squaredNorm_def)
  then show ?thesis using scenario_square count built run by simp
qed

text \<open>
  The degenerate pencil at \<open>p = (0)\<close> with the kernel vector \<open>e = (1, 1)\<close>: the quadratic
  form is \<open>0\<close>, and the call returns the vector \<open>(NaN)\<close>; no error is reported.
\<close>

theorem zero_gradient_returns_NaN:
  "LMI degenerate = Inr \<lparr>matrices = degenerate, lmi_d = 1, lmi_m = 2,
      vectorMatrix = \<lparr>rows = 3, cols = 1, data = [1, 0, - 1]\<rparr>\<rparr>
   \<and> evaluate \<lparr>matrices = degenerate, lmi_d = 1, lmi_m = 2,
        vectorMatrix = \<lparr>rows = 3, cols = 1, data = [1, 0, - 1]\<rparr>\<rparr> [0]
       = Inr \<lparr>rows = 2, cols = 2, data = [1, - 1, - 1, 1]\<rparr>
   \<and> mat_vec \<lparr>rows = 2, cols = 2, data = [1, - 1, - 1, 1]\<rparr> [1, 1] = Inr [0, 0 :: real]
   \<and> quadratic_forms \<lparr>matrices = degenerate, lmi_d = 1, lmi_m = 2,
        vectorMatrix = \<lparr>rows = 3, cols = 1, data = [1, 0, - 1]\<rparr>\<rparr> [1, 1] = [0]
   \<and> normalizedDeterminantGradient normalize_vec \<lparr>matrices = degenerate, lmi_d = 1, lmi_m = 2,
        vectorMatrix = \<lparr>rows = 3, cols = 1, data = [1, 0, - 1]\<rparr>\<rparr> [0] [1, 1] = Inr [NaN]"
proof -
  let ?P = "\<lparr>matrices = degenerate, lmi_d = 1, lmi_m = 2,
      vectorMatrix = \<lparr>rows = 3, cols = 1, data = [1, 0, - 1]\<rparr>\<rparr>"
  have ev: "evaluate ?P [0] = Inr \<lparr>rows = 2, cols = 2, data = [1, - 1, - 1, 1]\<rparr>"
    by code_simp
  have ker: "mat_vec \<lparr>rows = 2, cols = 2, data = [1, - 1, - 1, 1]\<rparr> [1, 1] = Inr [0, 0 :: real]"
    by code_simp
  have d: "length degenerate - 1 = 1" by (simp add: degenerate_def)
  have "normalizedDeterminantGradient normalize_vec ?P [0] [1, 1] = Inr (normalize_vec (quadratic_forms ?P [1, 1]))"
    using pencil_gradient [OF degenerate_square, of "[1, 1]" normalize_vec 2 "\<lparr>rows = 3, cols = 1, data = [1, 0, - 1]\<rparr>" "[0]"]
    by (simp only: d) simp
  also have "\<dots> = Inr (normalize_vec [0])"
    by (simp only: degenerate_forms)
  also have "\<dots> = Inr [NaN]"
    using normalize_zero [of 1] by simp
  finally show ?thesis using degenerate_built ev ker degenerate_forms by simp
qed

text \<open>
  C5, as the code has it. When the vector of the quadratic forms is exactly zero,
  \<open>normalizedDeterminantGradient\<close> reports nothing, whatever the library's
  \<open>normalize\<close> is: it returns to the caller what \<open>normalize\<close> makes of the zero
  vector. The pencil is one of at most \<open>2^31\<close> matrices of size \<open>n \<times> n\<close> with
  \<open>n * n < 2^31\<close>.
\<close>

theorem zero_gradient_is_not_reported:
  assumes "square_input n ms" "length e = n" "n * n < 2 ^ 31" "length ms \<le> 2 ^ 31"
  shows "\<exists>L. LMI ms = Inr L
      \<and> (quadratic_forms L e = replicate (lmi_d L) 0 \<longrightarrow>
           normalizedDeterminantGradient nrm L p e = Inr (nrm (replicate (lmi_d L) 0)))"
proof -
  from square_input_built [OF assms(1,3,4)] obtain vm where
    built: "LMI ms = Inr \<lparr>matrices = ms, lmi_d = length ms - 1, lmi_m = n, vectorMatrix = vm\<rparr>"
    by blast
  let ?L = "\<lparr>matrices = ms, lmi_d = length ms - 1, lmi_m = n, vectorMatrix = vm\<rparr>"
  have run: "normalizedDeterminantGradient nrm ?L p e = Inr (nrm (quadratic_forms ?L e))"
    using assms(1,2) by (rule pencil_gradient)
  have "normalizedDeterminantGradient nrm ?L p e = Inr (nrm (replicate (lmi_d ?L) 0))"
    if "quadratic_forms ?L e = replicate (lmi_d ?L) 0"
    using run that by simp
  then show ?thesis using built by blast
qed

theorem zero_gradient_is_not_reported_witness:
  "square_input 2 degenerate \<and> length [1, 1 :: real] = 2 \<and> (2 :: nat) * 2 < 2 ^ 31
   \<and> length degenerate \<le> 2 ^ 31
   \<and> (\<exists>L. LMI degenerate = Inr L \<and> quadratic_forms L [1, 1] = replicate (lmi_d L) 0
          \<and> normalizedDeterminantGradient normalize_vec L [0] [1, 1] = Inr [NaN])"
proof -
  have len: "length [1, 1 :: real] = 2" by simp
  have bound: "(2 :: nat) * 2 < 2 ^ 31" by simp
  have count: "length degenerate \<le> 2 ^ 31" by (simp add: degenerate_def)
  from zero_gradient_is_not_reported [OF degenerate_square len bound count, of normalize_vec "[0]"]
  obtain L where
    built: "LMI degenerate = Inr L"
    and run: "quadratic_forms L [1, 1] = replicate (lmi_d L) 0 \<longrightarrow>
           normalizedDeterminantGradient normalize_vec L [0] [1, 1]
             = Inr (normalize_vec (replicate (lmi_d L) 0))"
    by blast
  have L: "L = \<lparr>matrices = degenerate, lmi_d = 1, lmi_m = 2,
      vectorMatrix = \<lparr>rows = 3, cols = 1, data = [1, 0, - 1]\<rparr>\<rparr>"
    using built degenerate_built by simp
  have forms: "quadratic_forms L [1, 1] = [0]" unfolding L by (rule degenerate_forms)
  have d: "replicate (lmi_d L) 0 = [0 :: real]"
    by (simp add: L)
  have nan: "normalize_vec [0] = [NaN]"
    using normalize_zero [of 1] by simp
  have zero: "quadratic_forms L [1, 1] = replicate (lmi_d L) 0"
    by (simp only: forms d)
  with run have "normalizedDeterminantGradient normalize_vec L [0] [1, 1] = Inr [NaN]"
    by (simp only: d nan)
  then show ?thesis using degenerate_square count built zero by auto
qed

section \<open>Vectors of the wrong length\<close>

text \<open>
  A point \<open>p\<close> of length \<open>0\<close> for a pencil with \<open>d = 2\<close>, and a vector \<open>e\<close> of length \<open>3\<close>
  for a pencil with \<open>m = 2\<close> and \<open>d = 0\<close>: both calls of
  \<open>normalizedDeterminantGradient\<close> return a result.
\<close>

theorem wrong_lengths_are_accepted:
  "LMI scenario = Inr \<lparr>matrices = scenario, lmi_d = 2, lmi_m = 2,
      vectorMatrix = \<lparr>rows = 3, cols = 2, data = [1, 0, - 1, 0, 1, 0]\<rparr>\<rparr>
   \<and> normalizedDeterminantGradient normalize_vec \<lparr>matrices = scenario, lmi_d = 2, lmi_m = 2,
        vectorMatrix = \<lparr>rows = 3, cols = 2, data = [1, 0, - 1, 0, 1, 0]\<rparr>\<rparr> [] [1, 0]
       = Inr [Fin 1, Fin 0]
   \<and> LMI [\<lparr>rows = 2, cols = 2, data = [0, 0, 0, 0 :: real]\<rparr>]
       = Inr \<lparr>matrices = [\<lparr>rows = 2, cols = 2, data = [0, 0, 0, 0]\<rparr>], lmi_d = 0, lmi_m = 2,
              vectorMatrix = \<lparr>rows = 3, cols = 0, data = []\<rparr>\<rparr>
   \<and> normalizedDeterminantGradient normalize_vec
         \<lparr>matrices = [\<lparr>rows = 2, cols = 2, data = [0, 0, 0, 0]\<rparr>], lmi_d = 0, lmi_m = 2,
            vectorMatrix = \<lparr>rows = 3, cols = 0, data = []\<rparr>\<rparr> [] [1, 2, 3]
       = Inr []"
proof -
  let ?P = "\<lparr>matrices = scenario, lmi_d = 2, lmi_m = 2,
      vectorMatrix = \<lparr>rows = 3, cols = 2, data = [1, 0, - 1, 0, 1, 0]\<rparr>\<rparr>"
  have d: "length scenario - 1 = 2" by (simp add: scenario_def)
  have len: "length [1, 0 :: real] = 2" by simp
  have "normalizedDeterminantGradient normalize_vec ?P [] [1, 0] = Inr (normalize_vec (quadratic_forms ?P [1, 0]))"
    using pencil_gradient [OF scenario_square len, of normalize_vec 2
        "\<lparr>rows = 3, cols = 2, data = [1, 0, - 1, 0, 1, 0]\<rparr>" "[]"]
    by (simp only: d)
  also have "\<dots> = Inr (normalize_vec [1, 0])" by (simp only: scenario_forms)
  also have "\<dots> = Inr [Fin 1, Fin 0]"
    by (simp add: normalize_vec_def squaredNorm_def divide_by_norm_def)
  finally have first: "normalizedDeterminantGradient normalize_vec ?P [] [1, 0] = Inr [Fin 1, Fin 0]" .
  have built0: "LMI [\<lparr>rows = 2, cols = 2, data = [0, 0, 0, 0 :: real]\<rparr>]
       = Inr \<lparr>matrices = [\<lparr>rows = 2, cols = 2, data = [0, 0, 0, 0]\<rparr>], lmi_d = 0, lmi_m = 2,
              vectorMatrix = \<lparr>rows = 3, cols = 0, data = []\<rparr>\<rparr>"
    by code_simp
  have second: "normalizedDeterminantGradient normalize_vec
         \<lparr>matrices = [\<lparr>rows = 2, cols = 2, data = [0, 0, 0, 0]\<rparr>], lmi_d = 0, lmi_m = 2,
            vectorMatrix = \<lparr>rows = 3, cols = 0, data = []\<rparr>\<rparr> [] [1, 2, 3] = Inr []"
    by (simp add: normalizedDeterminantGradient_def freeze_def normalize_vec_def)
  show ?thesis using scenario_built first built0 second by simp
qed

lemma gradient_entry_mismatch:
  assumes "1 < length ms" "cols (ms ! 1) \<noteq> length e"
  shows "gradient_entry ms e 0 ret = Inl Size_Mismatch"
  using assms by (simp add: gradient_entry_def load_def mat_vec_def)

text \<open>
  C8, as the code has it. \<open>LMI.h\<close> compares no length. On a pencil of at most
  \<open>2^31\<close> matrices of size \<open>n \<times> n\<close> with \<open>n * n < 2^31\<close>: with a vector \<open>x\<close> whose
  length is not \<open>d\<close>, \<open>evaluateWithoutA0\<close>, \<open>evaluate\<close> and the membership test hand
  operands of unequal sizes to the product \<open>vectorMatrix * x\<close>, before any cell of the
  output is written; with \<open>d \<ge> 1\<close> and a vector \<open>e\<close> whose length is not \<open>m\<close>,
  \<open>normalizedDeterminantGradient\<close> does the same in \<open>matrices[1] * e\<close>. The point \<open>p\<close>
  is never read, so its length has no effect, and with \<open>d = 0\<close> every \<open>e\<close> is
  accepted.
\<close>

theorem lengths_are_not_checked:
  assumes "square_input n ms" "n * n < 2 ^ 31" "length ms \<le> 2 ^ 31"
  shows "\<exists>L. LMI ms = Inr L \<and> lmi_d L = length ms - 1 \<and> lmi_m L = n
      \<and> (length x \<noteq> lmi_d L \<longrightarrow>
            evaluateWithoutA0 L x = Inl Size_Mismatch
          \<and> evaluate L x = Inl Size_Mismatch
          \<and> isNegativeSemidefinite_pos f L x = Inl Size_Mismatch)
      \<and> normalizedDeterminantGradient nrm L p e = normalizedDeterminantGradient nrm L p' e
      \<and> (lmi_d L = 0 \<longrightarrow> normalizedDeterminantGradient nrm L p e = Inr (nrm []))
      \<and> (0 < lmi_d L \<and> length e \<noteq> n \<longrightarrow>
            normalizedDeterminantGradient nrm L p e = Inl Size_Mismatch)"
proof -
  from square_input_built [OF assms] obtain vm where
    built: "LMI ms = Inr \<lparr>matrices = ms, lmi_d = length ms - 1, lmi_m = n, vectorMatrix = vm\<rparr>"
    and cols: "cols vm = length ms - 1"
    by blast
  let ?d = "length ms - 1"
  let ?L = "\<lparr>matrices = ms, lmi_d = ?d, lmi_m = n, vectorMatrix = vm\<rparr>"
  have ev: "evaluateWithoutA0 ?L x = Inl Size_Mismatch" if "length x \<noteq> ?d"
    using that cols by (simp add: evaluateWithoutA0_def mat_vec_def)
  have ev': "evaluate ?L x = Inl Size_Mismatch" if "length x \<noteq> ?d"
    using ev [OF that] by (simp add: evaluate_def)
  have mem: "isNegativeSemidefinite_pos f ?L x = Inl Size_Mismatch" if "length x \<noteq> ?d"
    using ev' [OF that] by (simp add: isNegativeSemidefinite_pos_def)
  have same: "normalizedDeterminantGradient nrm ?L p e = normalizedDeterminantGradient nrm ?L p' e"
    by (simp add: normalizedDeterminantGradient_def)
  have none: "normalizedDeterminantGradient nrm ?L p e = Inr (nrm [])" if "?d = 0"
    using that by (simp add: normalizedDeterminantGradient_def freeze_def)
  have mismatch: "normalizedDeterminantGradient nrm ?L p e = Inl Size_Mismatch"
    if "0 < ?d" "length e \<noteq> n"
  proof -
    from that(1) have long: "1 < length ms" by simp
    then have "ms ! 1 \<in> set ms" by simp
    then have "cols (ms ! 1) = n" using assms by (simp add: square_input_def square_def)
    then have entry: "gradient_entry ms e 0 ret = Inl Size_Mismatch" for ret
      using long that(2) by (intro gradient_entry_mismatch) simp_all
    have "[0..<?d] = 0 # [1..<?d]" using that(1) by (simp add: upt_conv_Cons)
    then have "for_each [0..<?d] (gradient_entry ms e) (replicate ?d None) = Inl Size_Mismatch"
      by (simp only: for_each.simps entry and_then_Inl)
    then show ?thesis
      by (simp only: normalizedDeterminantGradient_def Let_def lmi.select_convs and_then_Inl)
  qed
  show ?thesis
    using built ev ev' mem same none mismatch
    by (intro exI [of _ ?L]) simp
qed

theorem lengths_are_not_checked_witness:
  "square_input 2 scenario \<and> (2 :: nat) * 2 < 2 ^ 31 \<and> length scenario \<le> 2 ^ 31
   \<and> (\<exists>L. LMI scenario = Inr L
        \<and> evaluateWithoutA0 L [1] = Inl Size_Mismatch
        \<and> evaluate L [1] = Inl Size_Mismatch
        \<and> isNegativeSemidefinite_pos (\<lambda>M. 1) L [1] = Inl Size_Mismatch
        \<and> normalizedDeterminantGradient normalize_vec L [] [1, 0]
            = normalizedDeterminantGradient normalize_vec L [0, 0] [1, 0]
        \<and> normalizedDeterminantGradient normalize_vec L [0, 0] [1, 2, 3] = Inl Size_Mismatch)"
proof -
  have bound: "(2 :: nat) * 2 < 2 ^ 31" by simp
  have count: "length scenario \<le> 2 ^ 31" by (simp add: scenario_def)
  from lengths_are_not_checked [OF scenario_square bound count,
      of "[1]" "\<lambda>M. 1" normalize_vec "[]" "[1, 0]" "[0, 0]"]
  obtain L where built: "LMI scenario = Inr L" and d: "lmi_d L = length scenario - 1"
    and x: "length [1 :: real] \<noteq> lmi_d L \<longrightarrow>
            evaluateWithoutA0 L [1] = Inl Size_Mismatch
          \<and> evaluate L [1] = Inl Size_Mismatch
          \<and> isNegativeSemidefinite_pos (\<lambda>M. 1) L [1] = Inl Size_Mismatch"
    and p: "normalizedDeterminantGradient normalize_vec L [] [1, 0]
            = normalizedDeterminantGradient normalize_vec L [0, 0] [1, 0]"
    by blast
  from lengths_are_not_checked [OF scenario_square bound count,
      of "[1]" "\<lambda>M. 1" normalize_vec "[0, 0]" "[1, 2, 3]" "[]"]
  obtain L' where built': "LMI scenario = Inr L'" and d': "lmi_d L' = length scenario - 1"
    and e: "0 < lmi_d L' \<and> length [1, 2, 3 :: real] \<noteq> 2 \<longrightarrow>
            normalizedDeterminantGradient normalize_vec L' [0, 0] [1, 2, 3] = Inl Size_Mismatch"
    by blast
  have same: "L' = L" using built built' by simp
  have two: "lmi_d L = 2" using d by (simp add: scenario_def)
  have "evaluateWithoutA0 L [1] = Inl Size_Mismatch \<and> evaluate L [1] = Inl Size_Mismatch
      \<and> isNegativeSemidefinite_pos (\<lambda>M. 1) L [1] = Inl Size_Mismatch"
    using x two by simp
  moreover have "normalizedDeterminantGradient normalize_vec L [0, 0] [1, 2, 3] = Inl Size_Mismatch"
    using e same two by simp
  ultimately show ?thesis using scenario_square bound count built p by blast
qed

end
